theory Spec2Isabelle
  imports Main "HOL-Library.Word"
begin

section \<open>Conway's Game of Life (src/main.c): data model\<close>

text \<open>
  The program is C for an LP64 platform: \<open>size_t\<close> is a 64-bit unsigned word and
  \<open>int\<close> a 32-bit word read in two's complement (\<open>sint\<close>). Conversions follow C:
  \<open>int\<close> to \<open>size_t\<close> sign-extends (\<open>scast\<close>), \<open>size_t\<close> to \<open>int\<close> keeps the
  low 32 bits (\<open>ucast\<close>).
\<close>

type_synonym size_t = "64 word"
type_synonym c_int = "32 word"

text \<open>\<open>typedef struct { int alive; size_t x; size_t y; } cell;\<close>
  The fields \<open>x\<close> and \<open>y\<close> are \<open>cell_x\<close> and \<open>cell_y\<close> here.\<close>

record cell =
  alive :: c_int
  cell_x :: size_t
  cell_y :: size_t

text \<open>\<open>typedef struct { cell **cells; size_t width; size_t height; int iteration; } world;\<close>
  The array of row pointers is a list of rows; \<open>cells w ! y ! x\<close> is \<open>w->cells[y][x]\<close>.\<close>

record world =
  cells :: "cell list list"
  width :: size_t
  height :: size_t
  iteration :: c_int

definition MIN_SURVIVAL :: c_int where "MIN_SURVIVAL = 1"
definition MAX_SURVIVAL :: c_int where "MAX_SURVIVAL = 4"
definition SPAWN :: c_int where "SPAWN = 3"

section \<open>Operations\<close>

text \<open>The functions of \<open>src/main.c\<close> that work on a world. A function that can fail to
  return gives an option; a function that writes to the world returns the new world.
  \<open>world_free\<close> has no effect on the values modelled; \<open>world_mainloop\<close> and \<open>main\<close>
  only call the functions below.\<close>

text \<open>The index pairs \<open>(y, x)\<close> visited by
  \<open>for (size_t y = 0; y < w->height; y++) for (size_t x = 0; x < w->width; x++)\<close>,
  in the order of the sweep (row by row).\<close>

definition positions :: "world \<Rightarrow> (nat \<times> nat) list" where
  "positions w = List.product [0..<unat (height w)] [0..<unat (width w)]"

text \<open>A store to the cell \<open>w->cells[y][x]\<close>, and the assignment
  \<open>w->cells[y][x].alive = a\<close>.\<close>

definition put_cell :: "world \<Rightarrow> nat \<Rightarrow> nat \<Rightarrow> cell \<Rightarrow> world" where
  "put_cell w y x c = w\<lparr>cells := (cells w)[y := (cells w ! y)[x := c]]\<rparr>"

definition set_alive :: "world \<Rightarrow> nat \<Rightarrow> nat \<Rightarrow> c_int \<Rightarrow> world" where
  "set_alive w y x a = put_cell w y x ((cells w ! y ! x)\<lparr>alive := a\<rparr>)"

text \<open>
  \<open>world_init(int width, int height)\<close>. Both \<open>calloc\<close> calls and both loop bounds
  convert the \<open>int\<close> to \<open>size_t\<close>. A negative height asks \<open>calloc\<close> for more than
  the address space holds, so \<open>w->cells\<close> is \<open>NULL\<close> and the first iteration of the
  outer loop writes through it; a negative width with a positive height does the same
  to the first row. These runs do not return: \<open>None\<close>. A negative width with height 0
  returns a world without rows whose width field is the converted value. Allocation
  of a grid of non-negative dimensions is taken to succeed.
\<close>

definition world_init :: "c_int \<Rightarrow> c_int \<Rightarrow> world option" where
  "world_init width0 height0 =
     (if height0 <s 0 \<or> (0 <s height0 \<and> width0 <s 0) then None
      else Some \<lparr>cells = map (\<lambda>y. map (\<lambda>x. \<lparr>alive = 0, cell_x = of_nat x, cell_y = of_nat y\<rparr>)
                                    [0..<nat (sint width0)])
                             [0..<nat (sint height0)],
                 width = scast width0,
                 height = scast height0,
                 iteration = 0\<rparr>)"

text \<open>\<open>world_copy\<close>: a fresh world from \<open>world_init(w->width, w->height)\<close> (the
  \<open>size_t\<close> fields converted to the \<open>int\<close> parameters), then the alive flag of every
  cell copied over, position by position.\<close>

definition world_copy :: "world \<Rightarrow> world option" where
  "world_copy w =
     (case world_init (ucast (width w)) (ucast (height w)) of
        None \<Rightarrow> None
      | Some copy \<Rightarrow>
          Some (fold (\<lambda>(y, x) c. set_alive c y x (alive (cells w ! y ! x))) (positions w) copy))"

text \<open>\<open>world_randomize\<close>: the \<open>k\<close>-th call of \<open>rand()\<close> after \<open>srand\<close> returns
  \<open>rand k\<close>, a value between 0 and \<open>RAND_MAX\<close>; the cell visited \<open>k\<close>-th gets
  \<open>rand() % 2\<close>.\<close>

definition world_randomize :: "(nat \<Rightarrow> nat) \<Rightarrow> world \<Rightarrow> world" where
  "world_randomize rand w =
     fold (\<lambda>(k, (y, x)) v. set_alive v y x (of_nat (rand k mod 2))) (enumerate 0 (positions w)) w"

text \<open>\<open>world_compare\<close>: 1 when the dimensions differ or some cell's alive flag
  differs, 0 otherwise. The iteration field is not read.\<close>

definition world_compare :: "world \<Rightarrow> world \<Rightarrow> c_int" where
  "world_compare w1 w2 =
     (if width w1 \<noteq> width w2 \<or> height w1 \<noteq> height w2 then 1
      else if list_ex (\<lambda>(y, x). alive (cells w1 ! y ! x) \<noteq> alive (cells w2 ! y ! x)) (positions w1)
           then 1
           else 0)"

text \<open>\<open>world_is_empty\<close>: 0 at the first cell with a non-zero alive flag, 1 when
  there is none.\<close>

definition world_is_empty :: "world \<Rightarrow> c_int" where
  "world_is_empty w =
     (if list_ex (\<lambda>(y, x). alive (cells w ! y ! x) \<noteq> 0) (positions w) then 0 else 1)"

text \<open>\<open>world_is_in_bounds(const world *w, size_t x, size_t y)\<close>: the parameters are
  unsigned, so \<open>0 <= x\<close> always holds and the test is \<open>x < w->width\<close>. The result is
  used as a truth value only.\<close>

definition world_is_in_bounds :: "world \<Rightarrow> size_t \<Rightarrow> size_t \<Rightarrow> bool" where
  "world_is_in_bounds w x y =
     (let x_in_bounds = (0 \<le> x \<and> x < width w);
          y_in_bounds = (0 \<le> y \<and> y < height w)
      in x_in_bounds \<and> y_in_bounds)"

text \<open>The body of the two offset loops of \<open>cell_update\<close>: \<open>c->x + x_offset\<close> is
  computed in \<open>size_t\<close> and stored in an \<open>int\<close>, which is converted back to
  \<open>size_t\<close> for the bounds test and used as it is to index the rows.\<close>

definition count_neighbour :: "world \<Rightarrow> cell \<Rightarrow> c_int \<Rightarrow> c_int \<Rightarrow> c_int \<Rightarrow> c_int" where
  "count_neighbour w c y_offset x_offset alive_neighbours =
     (let neighbour_x = (ucast (cell_x c + scast x_offset) :: c_int);
          neighbour_y = (ucast (cell_y c + scast y_offset) :: c_int);
          is_neighbour_current_cell = (x_offset = 0 \<and> y_offset = 0)
      in if \<not> is_neighbour_current_cell \<and> world_is_in_bounds w (scast neighbour_x) (scast neighbour_y)
         then alive_neighbours + alive (cells w ! nat (sint neighbour_y) ! nat (sint neighbour_x))
         else alive_neighbours)"

definition offsets :: "c_int list" where
  "offsets = [- 1, 0, 1]"

definition count_alive_neighbours :: "world \<Rightarrow> cell \<Rightarrow> c_int" where
  "count_alive_neighbours w c =
     fold (\<lambda>y_offset. fold (\<lambda>x_offset. count_neighbour w c y_offset x_offset) offsets) offsets 0"

text \<open>\<open>cell_update(const world *w, cell *c)\<close>: the cell \<open>c\<close> with its new alive flag
  (which is also the value returned). The neighbours are read from \<open>w\<close>.\<close>

definition cell_update :: "world \<Rightarrow> cell \<Rightarrow> cell" where
  "cell_update w c =
     (let alive_neighbours = count_alive_neighbours w c
      in c\<lparr>alive :=
            (if alive c \<noteq> 0
             then (if MIN_SURVIVAL <s alive_neighbours \<and> alive_neighbours <s MAX_SURVIVAL then 1 else 0)
             else (if alive_neighbours = SPAWN then 1 else 0))\<rparr>)"

text \<open>The statement \<open>cell_update(w, &w->cells[y][x])\<close> of \<open>world_advance\<close>: the
  world read by the rule is the world being written.\<close>

definition update_at :: "world \<Rightarrow> nat \<times> nat \<Rightarrow> world" where
  "update_at w p = (case p of (y, x) \<Rightarrow> put_cell w y x (cell_update w (cells w ! y ! x)))"

definition sweep :: "world \<Rightarrow> world" where
  "sweep w = fold (\<lambda>p v. update_at v p) (positions w) w"

text \<open>\<open>world_advance\<close>: the updated world and the returned flag. The snapshot
  \<open>prev\<close> is read by \<open>world_compare\<close> only. \<open>w->iteration += !is_same_as_prev\<close> is
  addition on the 32-bit word (at \<open>INT_MAX\<close>, where C leaves the result open, it wraps).\<close>

definition world_advance :: "world \<Rightarrow> (world \<times> c_int) option" where
  "world_advance w =
     (case world_copy w of
        None \<Rightarrow> None
      | Some prev \<Rightarrow>
          (let w1 = sweep w;
               is_same_as_prev = (if world_compare w1 prev = 0 then 1 else 0 :: c_int);
               w2 = w1\<lparr>iteration := iteration w1 + (if is_same_as_prev = 0 then 1 else 0)\<rparr>
           in Some (w2, if is_same_as_prev \<noteq> 0 \<or> world_is_empty w2 \<noteq> 0 then 0 else 1)))"

text \<open>\<open>printf\<close> of \<open>%d\<close> and \<open>%ld\<close>: the decimal digits of a signed value, most
  significant first, after a minus sign when it is negative.\<close>

fun dec_nat :: "nat \<Rightarrow> string" where
  "dec_nat n = (if n < 10 then [''0123456789'' ! n] else dec_nat (n div 10) @ [''0123456789'' ! (n mod 10)])"

declare dec_nat.simps [simp del]

definition dec_int :: "int \<Rightarrow> string" where
  "dec_int i = (if i < 0 then CHR ''-'' # dec_nat (nat (- i)) else dec_nat (nat i))"

text \<open>\<open>RESET_CURSOR()\<close> prints ESC \<open>[H\<close>.\<close>

definition RESET_CURSOR :: string where
  "RESET_CURSOR = [CHR 0x1B, CHR ''['', CHR ''H'']"

definition cell_char :: "cell \<Rightarrow> char" where
  "cell_char c = (if alive c \<noteq> 0 then CHR ''o'' else CHR '' '')"

text \<open>\<open>world_draw\<close>, on the world and the characters written to \<open>stdout\<close> so far:
  the cursor reset, one character per cell and a newline after each row, then the
  format string \<open>"\\vwidth: %ld, height: %ld, iteration: %d\\n"\<close>, whose first
  character is a vertical tab (0x0B). The \<open>size_t\<close> fields are printed by \<open>%ld\<close>,
  that is as signed 64-bit values. The world is only read.\<close>

definition world_draw :: "world \<Rightarrow> string \<Rightarrow> world \<times> string" where
  "world_draw w out =
     (let out1 = out @ RESET_CURSOR;
          out2 = fold (\<lambda>y o1. fold (\<lambda>x o2. o2 @ [cell_char (cells w ! y ! x)])
                                   [0..<unat (width w)] o1 @ [CHR 0x0A])
                   [0..<unat (height w)] out1;
          out3 = out2 @ [CHR 0x0B] @ ''width: '' @ dec_int (sint (width w))
                   @ '', height: '' @ dec_int (sint (height w))
                   @ '', iteration: '' @ dec_int (sint (iteration w)) @ [CHR 0x0A]
      in (w, out3))"

section \<open>Well-formed worlds\<close>

text \<open>The worlds the program works on: dimensions that fit an \<open>int\<close> (they come from
  the \<open>int\<close> parameters of \<open>world_init\<close>), \<open>height\<close> rows of \<open>width\<close> cells, every cell
  holding its own column and row, every alive flag 0 or 1. \<open>world_init\<close> with
  non-negative arguments returns such a world, and \<open>world_copy\<close>, \<open>world_randomize\<close>
  and \<open>world_advance\<close> keep it so.\<close>

definition dims_int :: "world \<Rightarrow> bool" where
  "dims_int w \<longleftrightarrow> unat (width w) < 2 ^ 31 \<and> unat (height w) < 2 ^ 31"

definition cells_shape :: "world \<Rightarrow> bool" where
  "cells_shape w \<longleftrightarrow>
     length (cells w) = unat (height w) \<and> list_all (\<lambda>row. length row = unat (width w)) (cells w)"

definition coords_inv :: "world \<Rightarrow> bool" where
  "coords_inv w \<longleftrightarrow>
     list_all (\<lambda>(y, x). cell_x (cells w ! y ! x) = of_nat x \<and> cell_y (cells w ! y ! x) = of_nat y)
       (positions w)"

definition alive_flags :: "world \<Rightarrow> bool" where
  "alive_flags w \<longleftrightarrow>
     list_all (\<lambda>(y, x). alive (cells w ! y ! x) = 0 \<or> alive (cells w ! y ! x) = 1) (positions w)"

definition world_wf :: "world \<Rightarrow> bool" where
  "world_wf w \<longleftrightarrow> dims_int w \<and> cells_shape w \<and> coords_inv w \<and> alive_flags w"

text \<open>The coordinates stored in the cells, row by row.\<close>

definition coords_of :: "world \<Rightarrow> (size_t \<times> size_t) list list" where
  "coords_of w = map (map (\<lambda>c. (cell_x c, cell_y c))) (cells w)"

section \<open>The grid of alive flags\<close>

text \<open>The alive flags of a world as truth values, and the rule of \<open>cell_update\<close> on them
  with plain integer arithmetic: \<open>live_neighbours\<close> counts, among the offsets in the
  order of the two loops, those other than \<open>(0, 0)\<close> that lead to a position inside the
  grid holding a live cell. \<open>grid_sweep\<close> is \<open>sweep\<close> on this view: the cells are
  updated one after the other, each from the grid as the earlier updates left it.\<close>

definition alive_grid :: "world \<Rightarrow> bool list list" where
  "alive_grid w = map (map (\<lambda>c. alive c \<noteq> 0)) (cells w)"

definition neighbour_offsets :: "(int \<times> int) list" where
  "neighbour_offsets = List.product [- 1, 0, 1] [- 1, 0, 1]"

definition in_grid :: "nat \<Rightarrow> nat \<Rightarrow> int \<Rightarrow> int \<Rightarrow> bool" where
  "in_grid h n j i \<longleftrightarrow> 0 \<le> j \<and> j < int h \<and> 0 \<le> i \<and> i < int n"

definition live_neighbour :: "nat \<Rightarrow> nat \<Rightarrow> bool list list \<Rightarrow> nat \<Rightarrow> nat \<Rightarrow> int \<times> int \<Rightarrow> bool" where
  "live_neighbour h n g y x d =
     (case d of (dy, dx) \<Rightarrow>
        \<not> (dx = 0 \<and> dy = 0) \<and> in_grid h n (int y + dy) (int x + dx)
        \<and> g ! nat (int y + dy) ! nat (int x + dx))"

definition live_neighbours :: "nat \<Rightarrow> nat \<Rightarrow> bool list list \<Rightarrow> nat \<Rightarrow> nat \<Rightarrow> nat" where
  "live_neighbours h n g y x = length (filter (live_neighbour h n g y x) neighbour_offsets)"

definition life_rule :: "bool \<Rightarrow> nat \<Rightarrow> bool" where
  "life_rule a k = (if a then 1 < k \<and> k < 4 else k = 3)"

definition grid_update_at :: "nat \<Rightarrow> nat \<Rightarrow> bool list list \<Rightarrow> nat \<times> nat \<Rightarrow> bool list list" where
  "grid_update_at h n g p =
     (case p of (y, x) \<Rightarrow> g[y := (g ! y)[x := life_rule (g ! y ! x) (live_neighbours h n g y x)]])"

definition grid_sweep :: "nat \<Rightarrow> nat \<Rightarrow> bool list list \<Rightarrow> bool list list" where
  "grid_sweep h n g = fold (\<lambda>p v. grid_update_at h n v p) (List.product [0..<h] [0..<n]) g"

definition some_alive :: "bool list list \<Rightarrow> bool" where
  "some_alive g = list_ex (list_ex (\<lambda>b. b)) g"

text \<open>The neighbours of the cell at row \<open>y\<close>, column \<open>x\<close> as a set of positions: inside
  the grid, at most one row and one column away, the cell itself left out.\<close>

definition neighbour_cells :: "nat \<Rightarrow> nat \<Rightarrow> nat \<Rightarrow> nat \<Rightarrow> (nat \<times> nat) set" where
  "neighbour_cells h n y x =
     {(j, i). j < h \<and> i < n \<and> (j, i) \<noteq> (y, x) \<and> j \<le> y + 1 \<and> y \<le> j + 1 \<and> i \<le> x + 1 \<and> x \<le> i + 1}"

text \<open>The update the specification describes (advance, steps 1 and 2), for comparison
  with \<open>sweep\<close>: every cell's next state is the rule applied to the grid as it was on
  entry.\<close>

definition snapshot_step :: "nat \<Rightarrow> nat \<Rightarrow> bool list list \<Rightarrow> bool list list" where
  "snapshot_step h n g =
     map (\<lambda>y. map (\<lambda>x. life_rule (g ! y ! x) (live_neighbours h n g y x)) [0..<n]) [0..<h]"

text \<open>Reading a digit string back, to state that \<open>dec_nat\<close> prints the number.\<close>

definition digit_value :: "char \<Rightarrow> nat" where
  "digit_value c = of_char c - 48"

definition dec_value :: "string \<Rightarrow> nat" where
  "dec_value s = fold (\<lambda>c v. 10 * v + digit_value c) s 0"

section \<open>Patterns and example worlds\<close>

text \<open>A world whose live cells are exactly the 2 by 2 block with upper left corner at
  row \<open>y0\<close>, column \<open>x0\<close>.\<close>

definition in_block :: "nat \<Rightarrow> nat \<Rightarrow> nat \<Rightarrow> nat \<Rightarrow> bool" where
  "in_block y0 x0 y x \<longleftrightarrow> (y = y0 \<or> y = Suc y0) \<and> (x = x0 \<or> x = Suc x0)"

definition is_block :: "world \<Rightarrow> nat \<Rightarrow> nat \<Rightarrow> bool" where
  "is_block w y0 x0 \<longleftrightarrow>
     Suc y0 < unat (height w) \<and> Suc x0 < unat (width w) \<and>
     list_all (\<lambda>(y, x). (alive (cells w ! y ! x) \<noteq> 0) = in_block y0 x0 y x) (positions w)"

text \<open>The world with the given rows of alive flags, every cell holding its position,
  the counter at 0.\<close>

definition world_of :: "c_int list list \<Rightarrow> world" where
  "world_of rows =
     \<lparr>cells = map (\<lambda>(y, row). map (\<lambda>(x, a). \<lparr>alive = a, cell_x = of_nat x, cell_y = of_nat y\<rparr>)
                                   (enumerate 0 row)) (enumerate 0 rows),
      width = (case rows of [] \<Rightarrow> 0 | row # _ \<Rightarrow> of_nat (length row)),
      height = of_nat (length rows),
      iteration = 0\<rparr>"

definition blinker5 :: world where
  "blinker5 = world_of [[0,0,0,0,0],[0,0,0,0,0],[0,1,1,1,0],[0,0,0,0,0],[0,0,0,0,0]]"

definition block4 :: world where
  "block4 = world_of [[0,0,0,0],[0,1,1,0],[0,1,1,0],[0,0,0,0]]"

definition row3 :: world where
  "row3 = world_of [[1,1,1]]"

section \<open>Machine integers\<close>

lemma uint_lt_of_unat:
  fixes n :: "'a::len word"
  assumes "unat n < k"
  shows "uint n < int k"
proof -
  have "int (unat n) < int k" using assms by (simp only: of_nat_less_iff)
  then show ?thesis by simp
qed

lemma signed_mod_int:
  fixes u h :: int
  assumes "0 \<le> u" "u < 2 * h"
  shows "(u + h) mod (2 * h) - h = (if u < h then u else u - 2 * h)"
proof (cases "u < h")
  case True
  then have "(u + h) mod (2 * h) = u + h"
    using assms by (intro mod_pos_pos_trivial) simp_all
  then show ?thesis using True by simp
next
  case False
  have "(u + h) mod (2 * h) = (u - h + 2 * h) mod (2 * h)" by (simp add: algebra_simps)
  also have "\<dots> = (u - h) mod (2 * h)" by (simp only: mod_add_self2)
  also have "\<dots> = u - h" using False assms by (intro mod_pos_pos_trivial) simp_all
  finally show ?thesis using False by simp
qed

lemma sint_size_t:
  fixes x :: size_t
  shows "sint x = (if uint x < 2 ^ 63 then uint x else uint x - 2 ^ 64)"
proof -
  have ux: "0 \<le> uint x" "uint x < 2 * 2 ^ 63"
    using uint_bounded [of x] by simp_all
  have "sint x = (uint x + 2 ^ 63) mod (2 * 2 ^ 63) - 2 ^ 63"
    using int_word_sint [where 'a = 64, of "uint x"] by simp
  also have "\<dots> = (if uint x < 2 ^ 63 then uint x else uint x - 2 * 2 ^ 63)"
    using ux by (rule signed_mod_int)
  finally show ?thesis by simp
qed

lemma size_t_less_signed:
  fixes x n :: size_t
  assumes "unat n < 2 ^ 31"
  shows "x < n \<longleftrightarrow> 0 \<le> sint x \<and> sint x < uint n"
proof -
  have ux: "0 \<le> uint x" "uint x < 2 ^ 64"
    using uint_bounded [of x] by simp_all
  have un: "uint n < 2 ^ 31"
    using uint_lt_of_unat [OF assms] by simp
  show ?thesis
    using ux un by (simp add: sint_size_t word_less_def)
qed

lemma sint_scast_int: "sint (scast (x :: c_int) :: size_t) = sint x"
  by (simp add: sint_up_scast is_up)

lemma in_bounds_signed64:
  assumes "dims_int w"
  shows "world_is_in_bounds w x y \<longleftrightarrow>
    0 \<le> sint x \<and> sint x < uint (width w) \<and> 0 \<le> sint y \<and> sint y < uint (height w)"
  using assms unfolding world_is_in_bounds_def dims_int_def Let_def
  by (auto simp: size_t_less_signed)

section \<open>Basic facts about well-formed worlds\<close>

lemma set_positions: "set (positions w) = {(y, x). y < unat (height w) \<and> x < unat (width w)}"
  by (auto simp: positions_def)

lemma in_positions [simp]: "(y, x) \<in> set (positions w) \<longleftrightarrow> y < unat (height w) \<and> x < unat (width w)"
  by (simp add: set_positions)

lemma cells_shapeD:
  assumes "cells_shape w"
  shows "length (cells w) = unat (height w)"
    and "y < unat (height w) \<Longrightarrow> length (cells w ! y) = unat (width w)"
  using assms by (auto simp: cells_shape_def list_all_length)

lemma coords_invD:
  assumes "coords_inv w" "y < unat (height w)" "x < unat (width w)"
  shows "cell_x (cells w ! y ! x) = of_nat x" "cell_y (cells w ! y ! x) = of_nat y"
  using assms by (auto simp: coords_inv_def list_all_iff)

lemma alive_flagsD:
  assumes "alive_flags w" "y < unat (height w)" "x < unat (width w)"
  shows "alive (cells w ! y ! x) = 0 \<or> alive (cells w ! y ! x) = 1"
  using assms by (auto simp: alive_flags_def list_all_iff)

section \<open>Stores keep the shape and the stored coordinates\<close>

lemma put_cell_fields [simp]:
  "width (put_cell w y x c) = width w"
  "height (put_cell w y x c) = height w"
  "iteration (put_cell w y x c) = iteration w"
  "positions (put_cell w y x c) = positions w"
  by (simp_all add: put_cell_def positions_def)

lemma nth_nth_update:
  "(cs[y := (cs ! y)[x := c]]) ! j ! i =
     (if j = y \<and> i = x \<and> y < length cs \<and> x < length (cs ! y) then c else cs ! j ! i)"
  by (cases "y < length cs"; cases "j = y"; cases "i = x"; cases "x < length (cs ! y)")
     (simp_all add: list_update_beyond)

lemma length_nth_update:
  "length (cs[y := (cs ! y)[x := c]]) = length cs"
  "length ((cs[y := (cs ! y)[x := c]]) ! j) = length (cs ! j)"
  by (cases "y < length cs"; cases "j = y"; simp add: list_update_beyond)+

lemma cells_put_cell:
  "cells (put_cell w y x c) ! j ! i =
     (if j = y \<and> i = x \<and> y < length (cells w) \<and> x < length (cells w ! y) then c
      else cells w ! j ! i)"
  by (simp add: put_cell_def nth_nth_update)

lemma length_put_cell [simp]:
  "length (cells (put_cell w y x c)) = length (cells w)"
  "length (cells (put_cell w y x c) ! j) = length (cells w ! j)"
  by (simp_all add: put_cell_def length_nth_update)

lemma set_alive_fields [simp]:
  "width (set_alive w y x a) = width w"
  "height (set_alive w y x a) = height w"
  "iteration (set_alive w y x a) = iteration w"
  "positions (set_alive w y x a) = positions w"
  by (simp_all add: set_alive_def)

lemma update_at_fields [simp]:
  "width (update_at w p) = width w"
  "height (update_at w p) = height w"
  "iteration (update_at w p) = iteration w"
  "positions (update_at w p) = positions w"
  by (simp_all add: update_at_def split: prod.splits)

lemma cell_update_coords [simp]:
  "cell_x (cell_update w c) = cell_x c" "cell_y (cell_update w c) = cell_y c"
  unfolding cell_update_def Let_def by simp_all

lemma cell_update_alive_01: "alive (cell_update w c) = 0 \<or> alive (cell_update w c) = 1"
  unfolding cell_update_def Let_def by simp

lemma cells_shape_put_cell [simp]: "cells_shape (put_cell w y x c) = cells_shape w"
  by (simp add: cells_shape_def list_all_length)

lemma coords_inv_put_cell:
  assumes "coords_inv w" "cell_x c = cell_x (cells w ! y ! x)" "cell_y c = cell_y (cells w ! y ! x)"
  shows "coords_inv (put_cell w y x c)"
  using assms by (auto simp: coords_inv_def list_all_iff cells_put_cell)

lemma alive_flags_put_cell:
  assumes "alive_flags w" "alive c = 0 \<or> alive c = 1"
  shows "alive_flags (put_cell w y x c)"
  using assms by (auto simp: alive_flags_def list_all_iff cells_put_cell)

lemma dims_int_put_cell [simp]: "dims_int (put_cell w y x c) = dims_int w"
  by (simp add: dims_int_def)

lemma world_wf_update_at: "world_wf w \<Longrightarrow> world_wf (update_at w p)"
  by (cases p) (simp add: world_wf_def update_at_def coords_inv_put_cell alive_flags_put_cell
      cell_update_alive_01)

lemma world_wf_set_alive: "world_wf w \<Longrightarrow> a = 0 \<or> a = 1 \<Longrightarrow> world_wf (set_alive w y x a)"
  by (simp add: world_wf_def set_alive_def coords_inv_put_cell alive_flags_put_cell)

lemma coords_inv_update_at: "coords_inv w \<Longrightarrow> coords_inv (update_at w p)"
  by (cases p) (simp add: update_at_def coords_inv_put_cell)

lemma coords_inv_set_alive: "coords_inv w \<Longrightarrow> coords_inv (set_alive w y x a)"
  by (simp add: set_alive_def coords_inv_put_cell)

lemma fold_invariant:
  assumes "\<And>v p. P v \<Longrightarrow> P (f p v)" "P w"
  shows "P (fold f ps w)"
  using assms(2) by (induction ps arbitrary: w) (simp_all add: assms(1))

lemma sweep_fields [simp]:
  "width (sweep w) = width w" "height (sweep w) = height w" "iteration (sweep w) = iteration w"
proof -
  have "width (sweep w) = width w \<and> height (sweep w) = height w \<and> iteration (sweep w) = iteration w"
    unfolding sweep_def
    by (rule fold_invariant [where P = "\<lambda>v. width v = width w \<and> height v = height w \<and> iteration v = iteration w"])
       simp_all
  then show "width (sweep w) = width w" "height (sweep w) = height w" "iteration (sweep w) = iteration w"
    by simp_all
qed

lemma world_wf_sweep: "world_wf w \<Longrightarrow> world_wf (sweep w)"
  unfolding sweep_def by (rule fold_invariant) (simp_all add: world_wf_update_at)

lemma coords_inv_sweep: "coords_inv w \<Longrightarrow> coords_inv (sweep w)"
  unfolding sweep_def by (rule fold_invariant) (simp_all add: coords_inv_update_at)

section \<open>Conversions between \<open>int\<close> and \<open>size_t\<close>\<close>

lemma sint_ucast_size_t:
  fixes n :: size_t
  assumes "unat n < 2 ^ 31"
  shows "sint (ucast n :: c_int) = uint n"
proof -
  have un: "uint n < 2 ^ 31" "0 \<le> uint n"
    using uint_lt_of_unat [OF assms] by simp_all
  have "sint (ucast n :: c_int) = signed_take_bit 31 (uint n)"
    by (simp add: signed_ucast_eq)
  also have "\<dots> = uint n"
  proof (rule signed_take_bit_int_eq_self)
    show "- (2 ^ 31) \<le> uint n"
      by (rule order_trans [OF _ uint_nonnegative]) simp
    show "uint n < 2 ^ 31" by (rule un(1))
  qed
  finally show ?thesis .
qed

lemma sint_size_t_small:
  fixes n :: size_t
  assumes "unat n < 2 ^ 31"
  shows "sint n = uint n"
proof -
  have "uint n < 2 ^ 31" using uint_lt_of_unat [OF assms] by simp
  then show ?thesis by (simp add: sint_size_t)
qed

lemma scast_ucast_size_t:
  fixes n :: size_t
  assumes "unat n < 2 ^ 31"
  shows "(scast (ucast n :: c_int) :: size_t) = n"
proof (rule signed_word_eqI [where 'a = int])
  show "sint (scast (ucast n :: c_int) :: size_t) = sint n"
    by (simp only: sint_scast_int sint_ucast_size_t [OF assms] sint_size_t_small [OF assms])
qed

lemma unat_scast_nonneg:
  fixes k :: c_int
  assumes "0 \<le> sint k"
  shows "unat (scast k :: size_t) = nat (sint k)"
proof -
  have "sint (scast k :: size_t) = sint k" by (rule sint_scast_int)
  then have "uint (scast k :: size_t) = sint k"
    using assms uint_bounded [of "scast k :: size_t"] by (simp add: sint_size_t split: if_splits)
  then show ?thesis by (simp only: unat_eq_nat_uint)
qed

lemma unat_scast_lt:
  fixes k :: c_int
  assumes "0 \<le> sint k"
  shows "unat (scast k :: size_t) < 2 ^ 31"
proof -
  have "sint k < 2 ^ 31" using sint_lt [of k] by simp
  then have "nat (sint k) < 2 ^ 31" using assms by simp
  then show ?thesis by (simp only: unat_scast_nonneg [OF assms])
qed

lemma small_nat_casts:
  assumes "m < 2 ^ 31"
  shows "ucast (of_nat m :: size_t) = (of_nat m :: c_int)"
    and "scast (of_nat m :: c_int) = (of_nat m :: size_t)"
    and "sint (of_nat m :: c_int) = int m"
    and "unat (of_nat m :: size_t) = m"
proof -
  have m64: "m < 2 ^ 64" using assms by simp
  have im: "- (2 ^ 31) \<le> int m" "int m < 2 ^ 31" using assms by simp_all
  show "ucast (of_nat m :: size_t) = (of_nat m :: c_int)"
    using m64 by (simp add: unsigned_of_nat take_bit_nat_eq_self)
  show s: "sint (of_nat m :: c_int) = int m"
    using im by (simp add: signed_of_nat signed_take_bit_int_eq_self)
  show "scast (of_nat m :: c_int) = (of_nat m :: size_t)"
    using im by (simp add: signed_of_nat signed_take_bit_int_eq_self)
  show "unat (of_nat m :: size_t) = m"
    using m64 by (simp add: unat_of_nat)
qed

lemma world_init_Some:
  assumes "0 \<le> sint width0" "0 \<le> sint height0"
  shows "world_init width0 height0 =
    Some \<lparr>cells = map (\<lambda>y. map (\<lambda>x. \<lparr>alive = 0, cell_x = of_nat x, cell_y = of_nat y\<rparr>)
                                    [0..<nat (sint width0)]) [0..<nat (sint height0)],
          width = scast width0, height = scast height0, iteration = 0\<rparr>"
  using assms by (simp add: world_init_def word_sless_alt)

section \<open>Creating and copying worlds\<close>

lemma world_init_nonneg:
  assumes "0 \<le> sint width0" "0 \<le> sint height0"
  shows "\<exists>w. world_init width0 height0 = Some w \<and> world_wf w \<and> iteration w = 0
           \<and> width w = scast width0 \<and> height w = scast height0
           \<and> (\<forall>(y, x) \<in> set (positions w). alive (cells w ! y ! x) = 0)"
proof -
  let ?w = "\<lparr>cells = map (\<lambda>y. map (\<lambda>x. \<lparr>alive = 0, cell_x = of_nat x, cell_y = of_nat y\<rparr>)
                                    [0..<nat (sint width0)]) [0..<nat (sint height0)],
          width = scast width0, height = scast height0, iteration = 0 :: c_int\<rparr>"
  have eq: "world_init width0 height0 = Some ?w"
    using assms by (rule world_init_Some)
  have uw: "unat (width ?w) = nat (sint width0)" and uh: "unat (height ?w) = nat (sint height0)"
    using assms by (simp_all add: unat_scast_nonneg)
  have "dims_int ?w"
    unfolding dims_int_def
    using unat_scast_lt [OF assms(1)] unat_scast_lt [OF assms(2)] by simp
  moreover have "cells_shape ?w"
    unfolding cells_shape_def using uw uh by (simp add: list_all_iff)
  moreover have "coords_inv ?w"
    unfolding coords_inv_def list_all_iff using uw uh by auto
  moreover have al: "\<forall>(y, x) \<in> set (positions ?w). alive (cells ?w ! y ! x) = 0"
    using uw uh by auto
  moreover have "alive_flags ?w"
    unfolding alive_flags_def list_all_iff using al by auto
  ultimately show ?thesis
    unfolding world_wf_def using eq by simp
qed

lemma fold_set_alive_fields [simp]:
  "width (fold (\<lambda>(y, x) c. set_alive c y x (g y x)) ps c) = width c"
  "height (fold (\<lambda>(y, x) c. set_alive c y x (g y x)) ps c) = height c"
  "iteration (fold (\<lambda>(y, x) c. set_alive c y x (g y x)) ps c) = iteration c"
  by (induction ps arbitrary: c; simp split: prod.splits)+

lemma cells_set_alive:
  "cells (set_alive w y x a) ! j ! i =
     (if j = y \<and> i = x \<and> y < length (cells w) \<and> x < length (cells w ! y)
      then (cells w ! y ! x)\<lparr>alive := a\<rparr> else cells w ! j ! i)"
  by (simp add: set_alive_def cells_put_cell)

lemma cells_shape_set_alive [simp]: "cells_shape (set_alive w y x a) = cells_shape w"
  by (simp add: set_alive_def)

lemma fold_set_alive_shape:
  "cells_shape c \<Longrightarrow> cells_shape (fold (\<lambda>(y, x) c. set_alive c y x (g y x)) ps c)"
  by (rule fold_invariant) (simp_all split: prod.splits)

lemma fold_set_alive_nth:
  assumes "cells_shape c" "\<forall>(y, x) \<in> set ps. y < unat (height c) \<and> x < unat (width c)"
  shows "cells (fold (\<lambda>(y, x) c. set_alive c y x (g y x)) ps c) ! j ! i =
           (if (j, i) \<in> set ps then (cells c ! j ! i)\<lparr>alive := g j i\<rparr> else cells c ! j ! i)"
  using assms(2)
proof (induction ps rule: rev_induct)
  case Nil
  then show ?case by simp
next
  case (snoc p ps)
  obtain y x where p: "p = (y, x)" by (cases p)
  let ?v = "fold (\<lambda>(y, x) c. set_alive c y x (g y x)) ps c"
  have sh: "cells_shape ?v" using assms(1) by (rule fold_set_alive_shape)
  have yx: "y < unat (height c)" "x < unat (width c)" using snoc.prems p by auto
  have len: "y < length (cells ?v)" "x < length (cells ?v ! y)"
    using cells_shapeD [OF sh] yx by simp_all
  have ih: "cells ?v ! j ! i =
      (if (j, i) \<in> set ps then (cells c ! j ! i)\<lparr>alive := g j i\<rparr> else cells c ! j ! i)"
    using snoc by simp
  show ?case
    using len ih by (auto simp: p cells_set_alive)
qed

lemma world_compare_0_iff:
  "world_compare w1 w2 = 0 \<longleftrightarrow>
     width w1 = width w2 \<and> height w1 = height w2 \<and>
     (\<forall>y < unat (height w1). \<forall>x < unat (width w1). alive (cells w1 ! y ! x) = alive (cells w2 ! y ! x))"
proof (cases "width w1 = width w2 \<and> height w1 = height w2")
  case True
  have "list_ex (\<lambda>(y, x). alive (cells w1 ! y ! x) \<noteq> alive (cells w2 ! y ! x)) (positions w1) \<longleftrightarrow>
      (\<exists>y < unat (height w1). \<exists>x < unat (width w1). alive (cells w1 ! y ! x) \<noteq> alive (cells w2 ! y ! x))"
    unfolding list_ex_iff by (simp add: set_positions)
  then show ?thesis using True by (auto simp: world_compare_def)
next
  case False
  then show ?thesis by (auto simp: world_compare_def)
qed

lemma world_compare_01: "world_compare w1 w2 = 0 \<or> world_compare w1 w2 = 1"
  by (simp add: world_compare_def)

lemma world_compare_iteration:
  "world_compare (w1\<lparr>iteration := i\<rparr>) (w2\<lparr>iteration := j\<rparr>) = world_compare w1 w2"
  by (simp add: world_compare_def positions_def)

lemma world_copy_wf:
  assumes "world_wf w"
  shows "\<exists>c. world_copy w = Some c \<and> world_wf c \<and> width c = width w \<and> height c = height w
           \<and> iteration c = 0
           \<and> (\<forall>y < unat (height w). \<forall>x < unat (width w).
                 cells c ! y ! x = \<lparr>alive = alive (cells w ! y ! x), cell_x = of_nat x, cell_y = of_nat y\<rparr>)"
proof -
  have d: "unat (width w) < 2 ^ 31" "unat (height w) < 2 ^ 31"
    using assms by (simp_all add: world_wf_def dims_int_def)
  have nn: "0 \<le> sint (ucast (width w) :: c_int)" "0 \<le> sint (ucast (height w) :: c_int)"
    by (simp_all add: sint_ucast_size_t [OF d(1)] sint_ucast_size_t [OF d(2)])
  obtain c0 where c0: "world_init (ucast (width w)) (ucast (height w)) = Some c0"
    "world_wf c0" "iteration c0 = 0" "width c0 = width w" "height c0 = height w"
    "\<forall>(y, x) \<in> set (positions c0). alive (cells c0 ! y ! x) = 0"
    using world_init_nonneg [OF nn]
    by (auto simp: scast_ucast_size_t [OF d(1)] scast_ucast_size_t [OF d(2)])
  let ?g = "\<lambda>y x. alive (cells w ! y ! x)"
  let ?c = "fold (\<lambda>(y, x) c. set_alive c y x (?g y x)) (positions w) c0"
  have copy: "world_copy w = Some ?c"
    by (simp add: world_copy_def c0(1))
  have pos: "positions c0 = positions w" by (simp add: positions_def c0)
  have sh0: "cells_shape c0" using c0(2) by (simp add: world_wf_def)
  have nth: "cells ?c ! j ! i =
      (if (j, i) \<in> set (positions w) then (cells c0 ! j ! i)\<lparr>alive := ?g j i\<rparr> else cells c0 ! j ! i)" for j i
    by (rule fold_set_alive_nth [OF sh0]) (auto simp: c0)
  have co0: "cell_x (cells c0 ! y ! x) = of_nat x \<and> cell_y (cells c0 ! y ! x) = of_nat y"
    if "y < unat (height w)" "x < unat (width w)" for y x
    using coords_invD [of c0 y x] c0 that by (simp add: world_wf_def)
  have cells: "cells ?c ! y ! x = \<lparr>alive = ?g y x, cell_x = of_nat x, cell_y = of_nat y\<rparr>"
    if "y < unat (height w)" "x < unat (width w)" for y x
    using that co0 [OF that] by (simp add: nth)
  have fl: "?g y x = 0 \<or> ?g y x = 1" if "y < unat (height w)" "x < unat (width w)" for y x
    using alive_flagsD [of w y x] assms that by (simp add: world_wf_def)
  have "dims_int ?c" using assms by (simp add: dims_int_def c0 world_wf_def)
  moreover have "cells_shape ?c" using sh0 by (rule fold_set_alive_shape)
  moreover have "coords_inv ?c"
    unfolding coords_inv_def list_all_iff by (auto simp: c0 cells)
  moreover have "alive_flags ?c"
    unfolding alive_flags_def list_all_iff using fl by (fastforce simp: c0 cells)
  ultimately have "world_wf ?c" by (simp add: world_wf_def)
  then show ?thesis using copy cells by (simp add: c0)
qed

section \<open>Neighbour coordinates and the neighbour count\<close>

lemma ucast_m1: "(ucast (- 1 :: size_t) :: c_int) = - 1"
  by (simp add: unsigned_minus_1_eq_mask mask_eq_exp_minus_1)

lemma size_t_of_nat_less:
  fixes N :: size_t
  assumes "m < 2 ^ 31"
  shows "(of_nat m :: size_t) < N \<longleftrightarrow> m < unat N"
  by (simp add: word_less_nat_alt small_nat_casts(4) [OF assms])

lemma neighbour_coord_same:
  fixes N :: size_t
  assumes "k < 2 ^ 31"
  defines "nk \<equiv> ucast ((of_nat k :: size_t)) :: c_int"
  shows "((scast nk :: size_t) < N \<longleftrightarrow> k < unat N) \<and> nat (sint nk) = k"
  unfolding nk_def
  by (simp add: small_nat_casts [OF assms(1)] size_t_of_nat_less [OF assms(1)])

lemma int_less_uint_iff: "int k < uint (N :: 'a::len word) \<longleftrightarrow> k < unat N"
  by (simp only: uint_nat of_nat_less_iff)

lemma neighbour_coord:
  fixes N :: size_t and d :: c_int
  assumes k: "k < unat N" and N: "unat N < 2 ^ 31" and d: "d = - 1 \<or> d = 0 \<or> d = 1"
  defines "nk \<equiv> ucast ((of_nat k :: size_t) + scast d) :: c_int"
  shows "((scast nk :: size_t) < N \<longleftrightarrow> 0 \<le> int k + sint d \<and> int k + sint d < uint N)
    \<and> (0 \<le> int k + sint d \<and> int k + sint d < uint N \<longrightarrow> nat (sint nk) = nat (int k + sint d))"
proof -
  have k31: "k < 2 ^ 31" and sk31: "Suc k < 2 ^ 31" using k N by simp_all
  consider "d = 0" | "d = 1" | "d = - 1" "k = 0" | k' where "d = - 1" "k = Suc k'"
    using d by (cases k) auto
  then show ?thesis
  proof cases
    case 1
    then have "nk = ucast (of_nat k :: size_t)" by (simp add: nk_def)
    then show ?thesis
      using neighbour_coord_same [OF k31, of N] 1 k by (simp add: int_less_uint_iff)
  next
    case 2
    then have "nk = ucast (of_nat (Suc k) :: size_t)" by (simp add: nk_def add.commute)
    moreover have "nat (int k + 1) = Suc k" by arith
    ultimately show ?thesis
      using neighbour_coord_same [OF sk31, of N] 2 int_less_uint_iff [of "Suc k" N] by (simp add: add.commute)
  next
    case 3
    then have "nk = - 1" by (simp add: nk_def ucast_m1)
    then show ?thesis using 3 by (simp add: word_not_simps)
  next
    case 4
    then have "nk = ucast (of_nat k' :: size_t)" by (simp add: nk_def)
    moreover have "k' < 2 ^ 31" using k31 4 by simp
    ultimately show ?thesis
      using neighbour_coord_same [of k' N] 4 k int_less_uint_iff [of k' N] by simp
  qed
qed

lemma alive_grid_nth:
  assumes "cells_shape w" "j < unat (height w)" "i < unat (width w)"
  shows "alive_grid w ! j ! i \<longleftrightarrow> alive (cells w ! j ! i) \<noteq> 0"
  using assms cells_shapeD [OF assms(1)] by (simp add: alive_grid_def)

lemma count_neighbour_wf:
  assumes wf: "world_wf w" and y: "y < unat (height w)" and x: "x < unat (width w)"
    and yo: "yo = - 1 \<or> yo = 0 \<or> yo = 1" and xo: "xo = - 1 \<or> xo = 0 \<or> xo = 1"
  shows "count_neighbour w (cells w ! y ! x) yo xo k =
     k + of_bool (live_neighbour (unat (height w)) (unat (width w)) (alive_grid w) y x (sint yo, sint xo))"
proof -
  have d: "unat (width w) < 2 ^ 31" "unat (height w) < 2 ^ 31"
    using wf by (simp_all add: world_wf_def dims_int_def)
  have sh: "cells_shape w" and fl: "alive_flags w" and co: "coords_inv w"
    using wf by (simp_all add: world_wf_def)
  have cx: "cell_x (cells w ! y ! x) = of_nat x" and cy: "cell_y (cells w ! y ! x) = of_nat y"
    using coords_invD [OF co y x] by simp_all
  let ?nx = "ucast ((of_nat x :: size_t) + scast xo) :: c_int"
  let ?ny = "ucast ((of_nat y :: size_t) + scast yo) :: c_int"
  let ?inx = "0 \<le> int x + sint xo \<and> int x + sint xo < uint (width w)"
  let ?iny = "0 \<le> int y + sint yo \<and> int y + sint yo < uint (height w)"
  have nx: "(scast ?nx < width w) = ?inx" "?inx \<Longrightarrow> nat (sint ?nx) = nat (int x + sint xo)"
    using neighbour_coord [OF x d(1) xo] by simp_all
  have ny: "(scast ?ny < height w) = ?iny" "?iny \<Longrightarrow> nat (sint ?ny) = nat (int y + sint yo)"
    using neighbour_coord [OF y d(2) yo] by simp_all
  have zero: "xo = 0 \<and> yo = 0 \<longleftrightarrow> sint xo = 0 \<and> sint yo = 0"
    by (simp add: signed_eq_0_iff)
  have grid: "in_grid (unat (height w)) (unat (width w)) (int y + sint yo) (int x + sint xo)
      \<longleftrightarrow> ?iny \<and> ?inx"
    by (simp add: in_grid_def)
  show ?thesis
  proof (cases "?inx \<and> ?iny")
    case True
    let ?j = "nat (int y + sint yo)" and ?i = "nat (int x + sint xo)"
    have ji: "?j < unat (height w)" "?i < unat (width w)"
      using True by (simp_all add: int_less_uint_iff [symmetric])
    have a01: "alive (cells w ! ?j ! ?i) = of_bool (alive (cells w ! ?j ! ?i) \<noteq> 0)"
      using alive_flagsD [OF fl ji] by auto
    have g: "alive_grid w ! ?j ! ?i \<longleftrightarrow> alive (cells w ! ?j ! ?i) \<noteq> 0"
      by (rule alive_grid_nth [OF sh ji])
    show ?thesis
      using True a01
      by (simp add: count_neighbour_def world_is_in_bounds_def Let_def cx cy nx ny zero grid g
          live_neighbour_def)
  next
    case False
    then show ?thesis
      by (auto simp: count_neighbour_def world_is_in_bounds_def Let_def cx cy nx(1) ny(1) grid
          live_neighbour_def)
  qed
qed

text \<open>The read \<open>w->cells[neighbour_y][neighbour_x]\<close> comes after the bounds test: in a
  well-formed world it is inside the array.\<close>

lemma neighbour_read_in_range:
  fixes yo xo :: c_int
  assumes wf: "world_wf w" and y: "y < unat (height w)" and x: "x < unat (width w)"
    and yo: "yo = - 1 \<or> yo = 0 \<or> yo = 1" and xo: "xo = - 1 \<or> xo = 0 \<or> xo = 1"
    and inb: "world_is_in_bounds w
        (scast (ucast (cell_x (cells w ! y ! x) + scast xo) :: c_int))
        (scast (ucast (cell_y (cells w ! y ! x) + scast yo) :: c_int))"
  shows "nat (sint (ucast (cell_y (cells w ! y ! x) + scast yo) :: c_int)) < length (cells w)
    \<and> nat (sint (ucast (cell_x (cells w ! y ! x) + scast xo) :: c_int))
        < length (cells w ! nat (sint (ucast (cell_y (cells w ! y ! x) + scast yo) :: c_int)))"
proof -
  have d: "unat (width w) < 2 ^ 31" "unat (height w) < 2 ^ 31"
    using wf by (simp_all add: world_wf_def dims_int_def)
  have sh: "cells_shape w" and co: "coords_inv w"
    using wf by (simp_all add: world_wf_def)
  have cx: "cell_x (cells w ! y ! x) = of_nat x" and cy: "cell_y (cells w ! y ! x) = of_nat y"
    using coords_invD [OF co y x] by simp_all
  let ?nx = "ucast ((of_nat x :: size_t) + scast xo) :: c_int"
  let ?ny = "ucast ((of_nat y :: size_t) + scast yo) :: c_int"
  have b: "scast ?nx < width w" "scast ?ny < height w"
    using inb by (simp_all add: world_is_in_bounds_def cx cy)
  have ix: "0 \<le> int x + sint xo \<and> int x + sint xo < uint (width w)"
    and nx: "nat (sint ?nx) = nat (int x + sint xo)"
    using neighbour_coord [OF x d(1) xo] b(1) by simp_all
  have iy: "0 \<le> int y + sint yo \<and> int y + sint yo < uint (height w)"
    and ny: "nat (sint ?ny) = nat (int y + sint yo)"
    using neighbour_coord [OF y d(2) yo] b(2) by simp_all
  have j: "nat (int y + sint yo) < unat (height w)" and i: "nat (int x + sint xo) < unat (width w)"
    using ix iy by (simp_all add: int_less_uint_iff [symmetric])
  show ?thesis
    using cells_shapeD [OF sh] j i by (simp add: cx cy nx ny)
qed

lemma length_filter_sum: "length (filter P xs) = sum_list (map (\<lambda>x. of_bool (P x)) xs)"
  by (induction xs) simp_all

lemma neighbour_offsets_eq:
  "neighbour_offsets = [(- 1, - 1), (- 1, 0), (- 1, 1), (0, - 1), (0, 0), (0, 1), (1, - 1), (1, 0), (1, 1)]"
  by (simp add: neighbour_offsets_def)

lemma count_alive_neighbours_wf:
  assumes wf: "world_wf w" and y: "y < unat (height w)" and x: "x < unat (width w)"
  shows "count_alive_neighbours w (cells w ! y ! x) =
     of_nat (live_neighbours (unat (height w)) (unat (width w)) (alive_grid w) y x)"
proof -
  have "live_neighbours (unat (height w)) (unat (width w)) (alive_grid w) y x =
      sum_list (map (\<lambda>d. of_bool (live_neighbour (unat (height w)) (unat (width w)) (alive_grid w) y x d))
        neighbour_offsets)"
    by (simp only: live_neighbours_def length_filter_sum)
  then show ?thesis
    by (simp add: neighbour_offsets_eq count_alive_neighbours_def offsets_def
        count_neighbour_wf [OF wf y x])
qed

lemma live_neighbours_le: "live_neighbours h n g y x \<le> 8"
proof -
  have "filter (live_neighbour h n g y x) neighbour_offsets =
      filter (live_neighbour h n g y x) [(- 1, - 1), (- 1, 0), (- 1, 1), (0, - 1), (0, 1), (1, - 1), (1, 0), (1, 1)]"
    by (simp add: neighbour_offsets_eq live_neighbour_def)
  then have "live_neighbours h n g y x \<le> length [(- 1, - 1), (- 1, 0), (- 1, 1), (0, - 1), (0, 1), (1, - 1), (1, 0), (1 :: int, 1 :: int)]"
    unfolding live_neighbours_def by (simp only: length_filter_le)
  then show ?thesis by simp
qed

section \<open>The sweep on the grid of alive flags\<close>

lemma c_int_of_small_nat:
  assumes "k \<le> 8"
  shows "(1 <s (of_nat k :: c_int)) = (1 < k)" "((of_nat k :: c_int) <s 4) = (k < 4)"
    "((of_nat k :: c_int) = 3) = (k = 3)"
proof -
  have k31: "k < 2 ^ 31" using assms by simp
  have s: "sint (of_nat k :: c_int) = int k" by (rule small_nat_casts(3) [OF k31])
  show "(1 <s (of_nat k :: c_int)) = (1 < k)" "((of_nat k :: c_int) <s 4) = (k < 4)"
    by (simp_all add: word_sless_alt s)
  have "((of_nat k :: c_int) = 3) = (sint (of_nat k :: c_int) = sint (3 :: c_int))"
    by (rule word_eq_iff_signed)
  then show "((of_nat k :: c_int) = 3) = (k = 3)" by (simp add: s)
qed

lemma cell_update_wf:
  assumes wf: "world_wf w" and y: "y < unat (height w)" and x: "x < unat (width w)"
  shows "cell_update w (cells w ! y ! x) = (cells w ! y ! x)
     \<lparr>alive := of_bool (life_rule (alive (cells w ! y ! x) \<noteq> 0)
                  (live_neighbours (unat (height w)) (unat (width w)) (alive_grid w) y x))\<rparr>"
  unfolding cell_update_def Let_def count_alive_neighbours_wf [OF wf y x]
  by (simp add: c_int_of_small_nat [OF live_neighbours_le] life_rule_def
      MIN_SURVIVAL_def MAX_SURVIVAL_def SPAWN_def)

lemma alive_grid_put_cell:
  assumes "y < length (cells w)"
  shows "alive_grid (put_cell w y x c) = (alive_grid w)[y := (alive_grid w ! y)[x := alive c \<noteq> 0]]"
  using assms by (simp add: alive_grid_def put_cell_def map_update)

lemma alive_grid_update_at:
  assumes wf: "world_wf w" and y: "y < unat (height w)" and x: "x < unat (width w)"
  shows "alive_grid (update_at w (y, x)) =
     grid_update_at (unat (height w)) (unat (width w)) (alive_grid w) (y, x)"
proof -
  have sh: "cells_shape w" using wf by (simp add: world_wf_def)
  have len: "y < length (cells w)" using cells_shapeD(1) [OF sh] y by simp
  show ?thesis
    by (simp add: update_at_def grid_update_at_def alive_grid_put_cell [OF len]
        cell_update_wf [OF wf y x] alive_grid_nth [OF sh y x])
qed

lemma alive_grid_fold_update_at:
  assumes "world_wf w" "set ps \<subseteq> set (positions w)"
  shows "alive_grid (fold (\<lambda>p v. update_at v p) ps w) =
     fold (\<lambda>p v. grid_update_at (unat (height w)) (unat (width w)) v p) ps (alive_grid w)"
  using assms
proof (induction ps arbitrary: w)
  case Nil
  then show ?case by simp
next
  case (Cons p ps)
  obtain y x where p: "p = (y, x)" by (cases p)
  have yx: "y < unat (height w)" "x < unat (width w)" using Cons.prems(2) p by simp_all
  have wf': "world_wf (update_at w p)" using Cons.prems(1) by (rule world_wf_update_at)
  have "alive_grid (fold (\<lambda>p v. update_at v p) ps (update_at w p)) =
     fold (\<lambda>p v. grid_update_at (unat (height w)) (unat (width w)) v p) ps (alive_grid (update_at w p))"
    using Cons.IH [OF wf'] Cons.prems(2) by (simp add: set_positions)
  then show ?case
    by (simp add: p alive_grid_update_at [OF Cons.prems(1) yx])
qed

lemma alive_grid_sweep:
  assumes "world_wf w"
  shows "alive_grid (sweep w) = grid_sweep (unat (height w)) (unat (width w)) (alive_grid w)"
  unfolding sweep_def grid_sweep_def
  using alive_grid_fold_update_at [OF assms, of "positions w"] by (simp add: positions_def)

section \<open>Comparing worlds, empty worlds\<close>

lemma alive_grid_eq_iff:
  assumes "world_wf v" "world_wf w" "width v = width w" "height v = height w"
  shows "alive_grid v = alive_grid w \<longleftrightarrow>
    (\<forall>y < unat (height w). \<forall>x < unat (width w). alive (cells v ! y ! x) = alive (cells w ! y ! x))"
proof -
  have shv: "cells_shape v" and shw: "cells_shape w" and flv: "alive_flags v" and flw: "alive_flags w"
    using assms by (simp_all add: world_wf_def)
  have lv: "length (cells v) = unat (height w)" "\<And>y. y < unat (height w) \<Longrightarrow> length (cells v ! y) = unat (width w)"
    using cells_shapeD [OF shv] assms(3,4) by simp_all
  have lw: "length (cells w) = unat (height w)" "\<And>y. y < unat (height w) \<Longrightarrow> length (cells w ! y) = unat (width w)"
    using cells_shapeD [OF shw] by simp_all
  have flag: "(alive (cells v ! y ! x) = alive (cells w ! y ! x)) =
      ((alive (cells v ! y ! x) \<noteq> 0) = (alive (cells w ! y ! x) \<noteq> 0))"
    if "y < unat (height w)" "x < unat (width w)" for y x
    using alive_flagsD [OF flv, of y x] alive_flagsD [OF flw, of y x] that assms(3,4) by auto
  have "alive_grid v = alive_grid w \<longleftrightarrow>
      (\<forall>y < unat (height w). \<forall>x < unat (width w).
         (alive (cells v ! y ! x) \<noteq> 0) = (alive (cells w ! y ! x) \<noteq> 0))"
    unfolding alive_grid_def by (simp add: list_eq_iff_nth_eq lv lw)
  then show ?thesis using flag by simp
qed

lemma world_is_empty_iff:
  "world_is_empty w = 0 \<longleftrightarrow> (\<exists>y < unat (height w). \<exists>x < unat (width w). alive (cells w ! y ! x) \<noteq> 0)"
  by (simp add: world_is_empty_def list_ex_iff set_positions)

lemma world_is_empty_01: "world_is_empty w = 0 \<or> world_is_empty w = 1"
  by (simp add: world_is_empty_def)

lemma world_is_empty_iteration [simp]: "world_is_empty (w\<lparr>iteration := i\<rparr>) = world_is_empty w"
  by (simp add: world_is_empty_def positions_def)

lemma world_is_empty_grid:
  assumes "cells_shape w"
  shows "world_is_empty w = 0 \<longleftrightarrow> (\<exists>row \<in> set (alive_grid w). \<exists>b \<in> set row. b)"
proof -
  have len: "length (cells w) = unat (height w)"
    "\<And>y. y < unat (height w) \<Longrightarrow> length (cells w ! y) = unat (width w)"
    using cells_shapeD [OF assms] by simp_all
  have lg: "length (alive_grid w) = unat (height w)"
    "\<And>y. y < unat (height w) \<Longrightarrow> length (alive_grid w ! y) = unat (width w)"
    using len by (simp_all add: alive_grid_def)
  have "(\<exists>row \<in> set (alive_grid w). \<exists>b \<in> set row. b) \<longleftrightarrow>
      (\<exists>y < unat (height w). \<exists>x < unat (width w). alive (cells w ! y ! x) \<noteq> 0)"
    (is "?L \<longleftrightarrow> ?R")
  proof
    assume ?L
    then obtain row where row: "row \<in> set (alive_grid w)" "True \<in> set row" by auto
    from row(1) obtain y where y: "y < unat (height w)" "row = alive_grid w ! y"
      using lg(1) by (auto simp: in_set_conv_nth)
    from row(2) obtain x where x: "x < unat (width w)" "row ! x"
      using lg(2) [OF y(1)] y(2) by (auto simp: in_set_conv_nth)
    have "alive (cells w ! y ! x) \<noteq> 0"
      using alive_grid_nth [OF assms y(1) x(1)] x(2) y(2) by simp
    then show ?R using y(1) x(1) by blast
  next
    assume ?R
    then obtain y x where yx: "y < unat (height w)" "x < unat (width w)"
      "alive (cells w ! y ! x) \<noteq> 0" by blast
    have "alive_grid w ! y \<in> set (alive_grid w)" using yx(1) lg(1) by simp
    moreover have "alive_grid w ! y ! x \<in> set (alive_grid w ! y)"
      using yx(2) lg(2) [OF yx(1)] by simp
    moreover have "alive_grid w ! y ! x" using alive_grid_nth [OF assms yx(1,2)] yx(3) by simp
    ultimately show ?L by blast
  qed
  then show ?thesis by (simp add: world_is_empty_iff)
qed

section \<open>Example worlds are well-formed\<close>

lemma world_of_wf:
  assumes ne: "rows \<noteq> []" and h: "length rows < 2 ^ 31" and n: "n < 2 ^ 31"
    and len: "\<forall>row \<in> set rows. length row = n"
    and fl: "\<forall>row \<in> set rows. \<forall>a \<in> set row. a = 0 \<or> a = 1"
  shows "world_wf (world_of rows) \<and> unat (height (world_of rows)) = length rows
    \<and> unat (width (world_of rows)) = n \<and> alive_grid (world_of rows) = map (map (\<lambda>a. a \<noteq> 0)) rows"
proof -
  let ?w = "world_of rows"
  obtain r rs where rows: "rows = r # rs" using ne by (cases rows) auto
  have "length r = n" using len rows by simp
  then have W: "width ?w = of_nat n" by (simp add: world_of_def rows)
  have H: "height ?w = of_nat (length rows)" by (simp add: world_of_def)
  have uW: "unat (width ?w) = n" using small_nat_casts(4) [OF n] W by simp
  have uH: "unat (height ?w) = length rows" using small_nat_casts(4) [OF h] H by simp
  have cell: "cells ?w ! y ! x = \<lparr>alive = rows ! y ! x, cell_x = of_nat x, cell_y = of_nat y\<rparr>"
    if "y < length rows" "x < n" for y x
  proof -
    have "length (rows ! y) = n" using len that(1) by simp
    then show ?thesis using that by (simp add: world_of_def nth_enumerate_eq)
  qed
  have f01: "rows ! y ! x = 0 \<or> rows ! y ! x = 1" if "y < length rows" "x < n" for y x
  proof -
    have "rows ! y \<in> set rows" using that(1) by simp
    moreover have "rows ! y ! x \<in> set (rows ! y)" using len that by simp
    ultimately show ?thesis using fl by blast
  qed
  have "dims_int ?w" using uW uH h n by (simp add: dims_int_def)
  moreover have "cells_shape ?w"
    unfolding cells_shape_def using uH uW len
    by (auto simp: world_of_def list_all_iff in_set_enumerate_eq)
  moreover have "coords_inv ?w"
    unfolding coords_inv_def list_all_iff by (auto simp: uH uW cell)
  moreover have "alive_flags ?w"
    unfolding alive_flags_def list_all_iff using f01 by (fastforce simp: uH uW cell)
  moreover have "alive_grid ?w = map (map (\<lambda>a. a \<noteq> 0)) rows"
    unfolding alive_grid_def using len
    by (auto simp: list_eq_iff_nth_eq world_of_def nth_enumerate_eq)
  ultimately show ?thesis using uH uW by (simp add: world_wf_def)
qed

lemma blinker5_wf:
  "world_wf blinker5 \<and> unat (height blinker5) = 5 \<and> unat (width blinker5) = 5
   \<and> alive_grid blinker5 = [[False,False,False,False,False],[False,False,False,False,False],
        [False,True,True,True,False],[False,False,False,False,False],[False,False,False,False,False]]"
  unfolding blinker5_def
  using world_of_wf [of "[[0,0,0,0,0],[0,0,0,0,0],[0,1,1,1,0],[0,0,0,0,0],[0,0,0,0,0]]" 5]
  by simp

lemma block4_wf:
  "world_wf block4 \<and> unat (height block4) = 4 \<and> unat (width block4) = 4
   \<and> alive_grid block4 = [[False,False,False,False],[False,True,True,False],
        [False,True,True,False],[False,False,False,False]]"
  unfolding block4_def
  using world_of_wf [of "[[0,0,0,0],[0,1,1,0],[0,1,1,0],[0,0,0,0]]" 4]
  by simp

lemma row3_wf:
  "world_wf row3 \<and> unat (height row3) = 1 \<and> unat (width row3) = 3
   \<and> alive_grid row3 = [[True,True,True]]"
  unfolding row3_def
  using world_of_wf [of "[[1,1,1]]" 3]
  by simp

section \<open>Advancing a world\<close>

lemma world_advance_wf:
  assumes wf: "world_wf w"
  shows "\<exists>prev. world_copy w = Some prev \<and> world_wf (sweep w)
     \<and> (world_compare (sweep w) prev = 0 \<longleftrightarrow> alive_grid (sweep w) = alive_grid w)
     \<and> world_advance w =
         Some ((sweep w)\<lparr>iteration := iteration w + of_bool (alive_grid (sweep w) \<noteq> alive_grid w)\<rparr>,
               of_bool (alive_grid (sweep w) \<noteq> alive_grid w \<and> world_is_empty (sweep w) = 0))"
proof -
  obtain prev where prev: "world_copy w = Some prev" "world_wf prev" "width prev = width w"
    "height prev = height w"
    "\<forall>y < unat (height w). \<forall>x < unat (width w).
        cells prev ! y ! x = \<lparr>alive = alive (cells w ! y ! x), cell_x = of_nat x, cell_y = of_nat y\<rparr>"
    using world_copy_wf [OF wf] by blast
  have wfs: "world_wf (sweep w)" using wf by (rule world_wf_sweep)
  have "world_compare (sweep w) prev = 0 \<longleftrightarrow>
      (\<forall>y < unat (height w). \<forall>x < unat (width w). alive (cells (sweep w) ! y ! x) = alive (cells w ! y ! x))"
    using prev(3,4,5) by (simp add: world_compare_0_iff)
  also have "\<dots> \<longleftrightarrow> alive_grid (sweep w) = alive_grid w"
    using alive_grid_eq_iff [OF wfs wf] by simp
  finally have cmp: "world_compare (sweep w) prev = 0 \<longleftrightarrow> alive_grid (sweep w) = alive_grid w" .
  have adv: "world_advance w =
         Some ((sweep w)\<lparr>iteration := iteration w + of_bool (alive_grid (sweep w) \<noteq> alive_grid w)\<rparr>,
               of_bool (alive_grid (sweep w) \<noteq> alive_grid w \<and> world_is_empty (sweep w) = 0))"
    using world_is_empty_01 [of "sweep w"]
    by (auto simp: world_advance_def prev(1) Let_def cmp)
  show ?thesis using prev(1) wfs cmp adv by blast
qed

section \<open>The bounds test (C5)\<close>

lemma size_t_pred_less:
  fixes n :: size_t
  assumes "0 < n"
  shows "n - 1 < n"
proof -
  have "n \<noteq> 0" using assms by auto
  then have "unat (n - 1) = unat n - 1" by (rule unat_minus_one)
  moreover have "0 < unat n" using \<open>n \<noteq> 0\<close> by (simp add: unat_gt_0)
  ultimately show ?thesis by (simp add: word_less_nat_alt)
qed

text \<open>
  Claim C5. \<open>world_is_in_bounds\<close> on a pair of signed coordinates (the \<open>int\<close> values
  \<open>cell_update\<close> passes, converted to the \<open>size_t\<close> parameters) is true exactly when
  \<open>0 \<le> x < width\<close> and \<open>0 \<le> y < height\<close>: a negative coordinate becomes a value
  of at least \<open>2^64 - 2^31\<close>, above every width and height an \<open>int\<close> can give. The
  same holds for the parameters themselves read as signed 64-bit values.
  It is false at \<open>(-1, 0)\<close> and at \<open>(width, 0)\<close>, and on a grid with at least one row and
  one column it is true at \<open>(0, 0)\<close> and at \<open>(width - 1, height - 1)\<close>.
\<close>

theorem world_is_in_bounds_signed:
  fixes x y :: c_int
  assumes "dims_int w"
  shows "(world_is_in_bounds w (scast x) (scast y) \<longleftrightarrow>
            0 \<le> sint x \<and> sint x < uint (width w) \<and> 0 \<le> sint y \<and> sint y < uint (height w))
    \<and> (world_is_in_bounds w x' y' \<longleftrightarrow>
            0 \<le> sint x' \<and> sint x' < uint (width w) \<and> 0 \<le> sint y' \<and> sint y' < uint (height w))
    \<and> \<not> world_is_in_bounds w (scast (- 1 :: c_int)) (scast (0 :: c_int))
    \<and> \<not> world_is_in_bounds w (width w) 0
    \<and> (0 < width w \<and> 0 < height w \<longrightarrow>
          world_is_in_bounds w 0 0 \<and> world_is_in_bounds w (width w - 1) (height w - 1))"
proof -
  have gen: "world_is_in_bounds w (scast a) (scast b) \<longleftrightarrow>
      0 \<le> sint a \<and> sint a < uint (width w) \<and> 0 \<le> sint b \<and> sint b < uint (height w)"
    for a b :: c_int
    using in_bounds_signed64 [OF assms, of "scast a" "scast b"] by (simp only: sint_scast_int)
  have "\<not> world_is_in_bounds w (scast (- 1 :: c_int)) (scast (0 :: c_int))"
    by (simp only: gen) simp
  moreover have "\<not> world_is_in_bounds w (width w) 0"
    by (simp add: world_is_in_bounds_def)
  moreover have "world_is_in_bounds w 0 0 \<and> world_is_in_bounds w (width w - 1) (height w - 1)"
    if "0 < width w \<and> 0 < height w"
    using that by (simp add: world_is_in_bounds_def size_t_pred_less)
  ultimately show ?thesis
    using gen [of x y] in_bounds_signed64 [OF assms, of x' y'] by blast
qed

theorem world_is_in_bounds_signed_witness:
  "dims_int blinker5
   \<and> world_is_in_bounds blinker5 (scast (4 :: c_int)) (scast (2 :: c_int))
   \<and> \<not> world_is_in_bounds blinker5 (scast (- 3 :: c_int)) (scast (2 :: c_int))
   \<and> \<not> world_is_in_bounds blinker5 (scast (- 1 :: c_int)) (scast (0 :: c_int))
   \<and> \<not> world_is_in_bounds blinker5 (width blinker5) 0
   \<and> world_is_in_bounds blinker5 0 0
   \<and> world_is_in_bounds blinker5 (width blinker5 - 1) (height blinker5 - 1)"
proof -
  have d: "dims_int blinker5" using blinker5_wf by (simp add: world_wf_def)
  have u: "uint (width blinker5) = 5" "uint (height blinker5) = 5"
    using blinker5_wf by (simp_all only: uint_nat)
  have p: "0 < width blinker5 \<and> 0 < height blinker5"
    using blinker5_wf by (simp add: word_less_nat_alt)
  show ?thesis
    using world_is_in_bounds_signed [OF d, where x = 4 and y = 2]
      world_is_in_bounds_signed [OF d, where x = "- 3" and y = 2] d u p
    by simp
qed

section \<open>What \<open>world_advance\<close> leaves unchanged (C9), copies (C8)\<close>

lemma map_map_update_same:
  assumes "f c = f (cs ! y ! x)"
  shows "map (map f) (cs[y := (cs ! y)[x := c]]) = map (map f) cs"
proof (cases "y < length cs")
  case True
  have "map f ((cs ! y)[x := c]) = map f (cs ! y)"
  proof (cases "x < length (cs ! y)")
    case True
    then show ?thesis using assms by (simp add: map_update list_update_same_conv)
  next
    case False
    then show ?thesis by (simp add: list_update_beyond)
  qed
  then show ?thesis using True by (simp add: map_update list_update_same_conv)
next
  case False
  then show ?thesis by (simp add: list_update_beyond)
qed

lemma coords_of_update_at: "coords_of (update_at w p) = coords_of w"
  by (cases p) (simp add: coords_of_def update_at_def put_cell_def map_map_update_same)

lemma coords_of_sweep: "coords_of (sweep w) = coords_of w"
  unfolding sweep_def
  by (rule fold_invariant [where P = "\<lambda>v. coords_of v = coords_of w"])
     (simp_all add: coords_of_update_at)

text \<open>
  Claim C9. \<open>world_advance\<close> leaves the width and the height as they were, and with them
  the shape of the cell array and the coordinates stored in every cell: only alive flags
  and the iteration counter can differ. On a well-formed world it returns.
\<close>

theorem world_advance_frame:
  "(\<forall>w' r. world_advance w = Some (w', r) \<longrightarrow>
       width w' = width w \<and> height w' = height w \<and> coords_of w' = coords_of w)
   \<and> (world_wf w \<longrightarrow> (\<exists>w' r. world_advance w = Some (w', r)))"
proof -
  have "width w' = width w \<and> height w' = height w \<and> coords_of w' = coords_of w"
    if "world_advance w = Some (w', r)" for w' r
  proof -
    have "\<exists>i. w' = (sweep w)\<lparr>iteration := i\<rparr>"
      using that by (auto simp: world_advance_def Let_def split: option.splits)
    then obtain i where "w' = (sweep w)\<lparr>iteration := i\<rparr>" ..
    then show ?thesis using coords_of_sweep [of w] by (simp add: coords_of_def)
  qed
  moreover have "\<exists>w' r. world_advance w = Some (w', r)" if "world_wf w"
    using world_advance_wf [OF that] by blast
  ultimately show ?thesis by blast
qed

theorem world_advance_frame_witness:
  "world_wf blinker5
   \<and> (\<exists>w' r. world_advance blinker5 = Some (w', r) \<and> width w' = width blinker5
         \<and> height w' = height blinker5 \<and> coords_of w' = coords_of blinker5)"
  using world_advance_frame [of blinker5] blinker5_wf by blast

text \<open>
  Claim C8. The copy of a world has its width, its height and the alive flag of every
  cell, so \<open>world_compare\<close> of the copy and the original is 0 (equal). \<open>world_compare\<close>
  is 0 exactly when the dimensions and all alive flags agree; the iteration counters have
  no part in it.
\<close>

theorem world_copy_equals:
  assumes "world_wf w"
  shows "\<exists>c. world_copy w = Some c \<and> width c = width w \<and> height c = height w
      \<and> (\<forall>y < unat (height w). \<forall>x < unat (width w). alive (cells c ! y ! x) = alive (cells w ! y ! x))
      \<and> world_compare c w = 0
      \<and> (\<forall>i j. world_compare (c\<lparr>iteration := i\<rparr>) (w\<lparr>iteration := j\<rparr>) = 0)
      \<and> (\<forall>w1 w2. world_compare w1 w2 = 0 \<longleftrightarrow>
            width w1 = width w2 \<and> height w1 = height w2 \<and>
            (\<forall>y < unat (height w1). \<forall>x < unat (width w1).
               alive (cells w1 ! y ! x) = alive (cells w2 ! y ! x)))"
proof -
  obtain c where c: "world_copy w = Some c" "width c = width w" "height c = height w"
    "\<forall>y < unat (height w). \<forall>x < unat (width w).
        cells c ! y ! x = \<lparr>alive = alive (cells w ! y ! x), cell_x = of_nat x, cell_y = of_nat y\<rparr>"
    using world_copy_wf [OF assms] by blast
  have al: "\<forall>y < unat (height w). \<forall>x < unat (width w). alive (cells c ! y ! x) = alive (cells w ! y ! x)"
    using c(4) by simp
  then have cmp: "world_compare c w = 0"
    using c(2,3) by (simp add: world_compare_0_iff)
  then have "\<forall>i j. world_compare (c\<lparr>iteration := i\<rparr>) (w\<lparr>iteration := j\<rparr>) = 0"
    by (simp add: world_compare_iteration)
  then show ?thesis using c(1,2,3) al cmp world_compare_0_iff by blast
qed

theorem world_copy_equals_witness:
  "world_wf block4
   \<and> (\<exists>c. world_copy block4 = Some c \<and> width c = width block4 \<and> height c = height block4
         \<and> alive (cells c ! 1 ! 2) = alive (cells block4 ! 1 ! 2)
         \<and> world_compare c block4 = 0
         \<and> world_compare (c\<lparr>iteration := 7\<rparr>) (block4\<lparr>iteration := 9\<rparr>) = 0)"
proof -
  have wf: "world_wf block4" and u: "1 < unat (height block4)" "2 < unat (width block4)"
    using block4_wf by simp_all
  obtain c where c: "world_copy block4 = Some c" "width c = width block4" "height c = height block4"
      "\<forall>y < unat (height block4). \<forall>x < unat (width block4).
          alive (cells c ! y ! x) = alive (cells block4 ! y ! x)"
      "world_compare c block4 = 0"
      "\<forall>i j. world_compare (c\<lparr>iteration := i\<rparr>) (block4\<lparr>iteration := j\<rparr>) = 0"
    using world_copy_equals [OF wf] by blast
  have "alive (cells c ! 1 ! 2) = alive (cells block4 ! 1 ! 2)" using c(4) u by blast
  then show ?thesis using wf c by blast
qed

section \<open>The result of \<open>world_advance\<close> (C2)\<close>

lemma world_advance_grid:
  assumes wf: "world_wf w" and h: "unat (height w) = h" and n: "unat (width w) = n"
    and g: "alive_grid w = g" and g': "grid_sweep h n g = g'"
  shows "\<exists>w'. world_advance w = Some (w', of_bool (g' \<noteq> g \<and> some_alive g'))
     \<and> world_wf w' \<and> height w' = height w \<and> width w' = width w
     \<and> alive_grid w' = g' \<and> iteration w' = iteration w + of_bool (g' \<noteq> g)"
proof -
  let ?w' = "(sweep w)\<lparr>iteration := iteration w + of_bool (alive_grid (sweep w) \<noteq> alive_grid w)\<rparr>"
  have sw: "alive_grid (sweep w) = g'"
    using alive_grid_sweep [OF wf] h n g g' by simp
  have wfs: "world_wf (sweep w)" using wf by (rule world_wf_sweep)
  then have sh: "cells_shape (sweep w)" by (simp add: world_wf_def)
  have emp: "world_is_empty (sweep w) = 0 \<longleftrightarrow> some_alive g'"
    using world_is_empty_grid [OF sh] sw by (simp add: some_alive_def list_ex_iff)
  have adv: "world_advance w = Some (?w', of_bool (g' \<noteq> g \<and> some_alive g'))"
    using world_advance_wf [OF wf] sw g emp by auto
  have "world_wf ?w'"
    using wfs by (simp add: world_wf_def dims_int_def cells_shape_def coords_inv_def
        alive_flags_def positions_def)
  moreover have "alive_grid ?w' = g'" using sw by (simp add: alive_grid_def)
  ultimately show ?thesis using adv sw g by simp
qed

lemma blinker5_advance:
  "\<exists>w'. world_advance blinker5 = Some (w', 1) \<and> world_wf w'
     \<and> height w' = height blinker5 \<and> width w' = width blinker5
     \<and> alive_grid w' = [[False,False,False,False,False],[False,False,True,True,False],
          [False,True,False,True,False],[False,False,False,False,False],
          [False,False,False,False,False]]
     \<and> iteration w' = 1"
proof -
  let ?g = "[[False,False,False,False,False],[False,False,False,False,False],
        [False,True,True,True,False],[False,False,False,False,False],[False,False,False,False,False]]"
  let ?g' = "[[False,False,False,False,False],[False,False,True,True,False],
          [False,True,False,True,False],[False,False,False,False,False],
          [False,False,False,False,False]]"
  have sw: "grid_sweep 5 5 ?g = ?g'" by code_simp
  have it: "iteration blinker5 = 0" by (simp add: blinker5_def world_of_def)
  show ?thesis
    using world_advance_grid [of blinker5 5 5 ?g ?g'] blinker5_wf sw it
    by (simp add: some_alive_def)
qed

lemma sint_c_int_succ:
  fixes a :: c_int
  assumes "sint a < 2147483647"
  shows "sint (a + 1) = sint a + 1"
proof -
  have lo: "- (2 ^ 31) \<le> sint a" using sint_ge [of a] by simp
  have "sint (a + 1) = signed_take_bit 31 (sint a + 1)"
    by (simp add: sint_word_ariths)
  also have "\<dots> = sint a + 1"
    using lo assms by (intro signed_take_bit_int_eq_self) simp_all
  finally show ?thesis .
qed

lemma world_compare_iteration_left:
  "world_compare (w1\<lparr>iteration := i\<rparr>) w2 = world_compare w1 w2"
  by (simp add: world_compare_def positions_def)

text \<open>
  Claim C2. \<open>world_advance\<close> returns 1 exactly when the updated grid differs from the
  snapshot taken on entry (by \<open>world_compare\<close>, which does not read the counter) and has
  a live cell. The counter stays when the grid equals the snapshot and goes up by one
  otherwise, whether or not a live cell is left. The addition is the machine's: below
  \<open>INT_MAX\<close> the signed value goes up by one.
\<close>

theorem world_advance_signal:
  assumes wf: "world_wf w"
  shows "\<exists>prev w' r. world_copy w = Some prev \<and> world_advance w = Some (w', r)
     \<and> (r = 1 \<longleftrightarrow> world_compare w' prev \<noteq> 0 \<and> world_is_empty w' = 0)
     \<and> (r = 0 \<or> r = 1)
     \<and> iteration w' = (if world_compare w' prev = 0 then iteration w else iteration w + 1)
     \<and> (world_compare w' prev \<noteq> 0 \<and> sint (iteration w) < 2147483647 \<longrightarrow>
           sint (iteration w') = sint (iteration w) + 1)
     \<and> (world_compare w' prev = 0 \<longleftrightarrow>
           (\<forall>y < unat (height w). \<forall>x < unat (width w).
              alive (cells w' ! y ! x) = alive (cells w ! y ! x)))
     \<and> (world_is_empty w' = 0 \<longleftrightarrow>
           (\<exists>y < unat (height w). \<exists>x < unat (width w). alive (cells w' ! y ! x) \<noteq> 0))"
proof -
  let ?ch = "alive_grid (sweep w) \<noteq> alive_grid w"
  let ?w' = "(sweep w)\<lparr>iteration := iteration w + of_bool ?ch\<rparr>"
  let ?r = "of_bool (?ch \<and> world_is_empty (sweep w) = 0) :: c_int"
  obtain prev where prev: "world_copy w = Some prev" "world_wf (sweep w)"
    "world_compare (sweep w) prev = 0 \<longleftrightarrow> \<not> ?ch"
    "world_advance w = Some (?w', ?r)"
    using world_advance_wf [OF wf] by auto
  have cmp: "world_compare ?w' prev = world_compare (sweep w) prev"
    by (rule world_compare_iteration_left)
  have emp: "world_is_empty ?w' = world_is_empty (sweep w)" by simp
  have same: "world_compare ?w' prev = 0 \<longleftrightarrow>
           (\<forall>y < unat (height w). \<forall>x < unat (width w).
              alive (cells ?w' ! y ! x) = alive (cells w ! y ! x))"
  proof -
    have "world_compare (sweep w) prev = 0 \<longleftrightarrow>
           (\<forall>y < unat (height w). \<forall>x < unat (width w).
              alive (cells (sweep w) ! y ! x) = alive (cells w ! y ! x))"
      using alive_grid_eq_iff [OF prev(2) wf] prev(3) by simp
    moreover have "cells ?w' = cells (sweep w)" by simp
    ultimately show ?thesis by (simp only: cmp)
  qed
  have live: "world_is_empty ?w' = 0 \<longleftrightarrow>
           (\<exists>y < unat (height w). \<exists>x < unat (width w). alive (cells ?w' ! y ! x) \<noteq> 0)"
    using world_is_empty_iff [of "sweep w"] by simp
  have r: "?r = 1 \<longleftrightarrow> world_compare ?w' prev \<noteq> 0 \<and> world_is_empty ?w' = 0"
    using prev(3) by (simp add: cmp)
  have r01: "?r = 0 \<or> ?r = 1" by simp
  have it: "iteration ?w' = (if world_compare ?w' prev = 0 then iteration w else iteration w + 1)"
    using prev(3) by (simp add: cmp)
  have its: "world_compare ?w' prev \<noteq> 0 \<and> sint (iteration w) < 2147483647 \<longrightarrow>
           sint (iteration ?w') = sint (iteration w) + 1"
    using prev(3) by (simp add: cmp sint_c_int_succ)
  show ?thesis
    using prev(1,4) r r01 it its same live by blast
qed

theorem world_advance_signal_witness:
  "world_wf blinker5
   \<and> (\<exists>prev w' r. world_copy blinker5 = Some prev \<and> world_advance blinker5 = Some (w', r)
         \<and> r = 1 \<and> world_compare w' prev \<noteq> 0 \<and> world_is_empty w' = 0
         \<and> iteration w' = iteration blinker5 + 1)"
proof -
  have wf: "world_wf blinker5" using blinker5_wf by simp
  obtain w0 where w0: "world_advance blinker5 = Some (w0, 1)"
    using blinker5_advance by blast
  obtain prev w' r where a: "world_copy blinker5 = Some prev" "world_advance blinker5 = Some (w', r)"
    "r = 1 \<longleftrightarrow> world_compare w' prev \<noteq> 0 \<and> world_is_empty w' = 0"
    "iteration w' = (if world_compare w' prev = 0 then iteration blinker5 else iteration blinker5 + 1)"
    using world_advance_signal [OF wf] by blast
  have r: "r = 1" using w0 a(2) by simp
  then have "world_compare w' prev \<noteq> 0" "world_is_empty w' = 0" using a(3) by simp_all
  then show ?thesis using wf a r by auto
qed

section \<open>The update is done in place (C1, C4)\<close>

text \<open>
  Claim C1 (not met by the code). \<open>world_advance\<close> takes the snapshot \<open>prev\<close> but calls
  \<open>cell_update(w, &w->cells[y][x])\<close>: the rule reads the world it is writing. On
  the one-row world \<open>o o o\<close> the left cell dies first (one live neighbour); the middle
  cell then sees one live neighbour instead of two and dies as well, where the rule
  applied to the snapshot keeps it alive.
\<close>

theorem world_advance_reads_updated_cells:
  "\<exists>w'. world_advance row3 = Some (w', 0)
      \<and> alive_grid row3 = [[True, True, True]]
      \<and> alive_grid w' = [[False, False, False]]
      \<and> snapshot_step 1 3 (alive_grid row3) = [[False, True, False]]"
proof -
  have sw: "grid_sweep 1 3 [[True, True, True]] = [[False, False, False]]" by code_simp
  have sn: "snapshot_step 1 3 [[True, True, True]] = [[False, True, False]]" by code_simp
  have wf: "world_wf row3" and d: "unat (height row3) = 1" "unat (width row3) = 3"
    and g: "alive_grid row3 = [[True, True, True]]"
    using row3_wf by simp_all
  obtain w' where "world_advance row3 = Some (w', 0)" "alive_grid w' = [[False, False, False]]"
    using world_advance_grid [OF wf d g sw] by (auto simp: some_alive_def)
  then show ?thesis using g sn by auto
qed

theorem world_advance_reads_updated_cells_witness:
  "\<exists>w'. world_advance row3 = Some (w', 0)
      \<and> alive_grid w' \<noteq> snapshot_step 1 3 (alive_grid row3)"
  using world_advance_reads_updated_cells by auto

text \<open>
  Claim C4 (not met by the code). On the 5 by 5 world with the horizontal blinker in the
  middle row, the first \<open>world_advance\<close> gives a four-cell pattern, not the vertical
  blinker that the rule applied to the snapshot gives; the second gives a 2 by 2 block,
  not the horizontal blinker. Both calls return 1 and each increments the counter.
\<close>

theorem world_advance_blinker:
  "\<exists>w1 w2. world_advance blinker5 = Some (w1, 1) \<and> world_advance w1 = Some (w2, 1)
      \<and> alive_grid blinker5 =
           [[False,False,False,False,False],[False,False,False,False,False],
            [False,True,True,True,False],[False,False,False,False,False],
            [False,False,False,False,False]]
      \<and> alive_grid w1 =
           [[False,False,False,False,False],[False,False,True,True,False],
            [False,True,False,True,False],[False,False,False,False,False],
            [False,False,False,False,False]]
      \<and> alive_grid w2 =
           [[False,False,False,False,False],[False,False,True,True,False],
            [False,False,True,True,False],[False,False,False,False,False],
            [False,False,False,False,False]]
      \<and> snapshot_step 5 5 (alive_grid blinker5) =
           [[False,False,False,False,False],[False,False,True,False,False],
            [False,False,True,False,False],[False,False,True,False,False],
            [False,False,False,False,False]]
      \<and> iteration blinker5 = 0 \<and> iteration w1 = 1 \<and> iteration w2 = 2"
proof -
  let ?g0 = "[[False,False,False,False,False],[False,False,False,False,False],
            [False,True,True,True,False],[False,False,False,False,False],
            [False,False,False,False,False]]"
  let ?g1 = "[[False,False,False,False,False],[False,False,True,True,False],
            [False,True,False,True,False],[False,False,False,False,False],
            [False,False,False,False,False]]"
  let ?g2 = "[[False,False,False,False,False],[False,False,True,True,False],
            [False,False,True,True,False],[False,False,False,False,False],
            [False,False,False,False,False]]"
  obtain w1 where w1: "world_advance blinker5 = Some (w1, 1)" "world_wf w1"
    "height w1 = height blinker5" "width w1 = width blinker5" "alive_grid w1 = ?g1"
    "iteration w1 = 1"
    using blinker5_advance by blast
  have sw: "grid_sweep 5 5 ?g1 = ?g2" by code_simp
  have d: "unat (height w1) = 5" "unat (width w1) = 5" using w1(3,4) blinker5_wf by simp_all
  obtain w2 where w2: "world_advance w1 = Some (w2, 1)" "alive_grid w2 = ?g2" "iteration w2 = 2"
    using world_advance_grid [OF w1(2) d w1(5) sw] w1(6) by (auto simp: some_alive_def)
  have g0: "alive_grid blinker5 = ?g0" using blinker5_wf by simp
  have "snapshot_step 5 5 ?g0 =
           [[False,False,False,False,False],[False,False,True,False,False],
            [False,False,True,False,False],[False,False,True,False,False],
            [False,False,False,False,False]]"
    by code_simp
  then have sn: "snapshot_step 5 5 (alive_grid blinker5) =
           [[False,False,False,False,False],[False,False,True,False,False],
            [False,False,True,False,False],[False,False,True,False,False],
            [False,False,False,False,False]]"
    by (simp only: g0)
  have it: "iteration blinker5 = 0" by (simp add: blinker5_def world_of_def)
  show ?thesis using w1(1,5,6) w2 sn it g0 by blast
qed

theorem world_advance_blinker_witness:
  "\<exists>w1 w2. world_advance blinker5 = Some (w1, 1) \<and> world_advance w1 = Some (w2, 1)
      \<and> alive_grid w1 \<noteq> snapshot_step 5 5 (alive_grid blinker5)
      \<and> alive_grid w2 \<noteq> alive_grid blinker5"
proof -
  obtain w1 w2 where a: "world_advance blinker5 = Some (w1, 1)" "world_advance w1 = Some (w2, 1)"
    "alive_grid blinker5 =
           [[False,False,False,False,False],[False,False,False,False,False],
            [False,True,True,True,False],[False,False,False,False,False],
            [False,False,False,False,False]]"
    "alive_grid w1 =
           [[False,False,False,False,False],[False,False,True,True,False],
            [False,True,False,True,False],[False,False,False,False,False],
            [False,False,False,False,False]]"
    "alive_grid w2 =
           [[False,False,False,False,False],[False,False,True,True,False],
            [False,False,True,True,False],[False,False,False,False,False],
            [False,False,False,False,False]]"
    "snapshot_step 5 5 (alive_grid blinker5) =
           [[False,False,False,False,False],[False,False,True,False,False],
            [False,False,True,False,False],[False,False,True,False,False],
            [False,False,False,False,False]]"
    using world_advance_blinker by blast
  have "alive_grid w1 \<noteq> snapshot_step 5 5 (alive_grid blinker5)"
    unfolding a(4,6) by simp
  moreover have "alive_grid w2 \<noteq> alive_grid blinker5"
    unfolding a(3,5) by simp
  ultimately show ?thesis using a(1,2) by blast
qed

section \<open>The 2 by 2 block (C7)\<close>

lemma fold_fixed:
  assumes "\<forall>p \<in> set ps. f p g = g"
  shows "fold f ps g = g"
  using assms by (induction ps) simp_all

lemma grid_sweep_fixed:
  assumes "\<forall>y < h. \<forall>x < n. life_rule (g ! y ! x) (live_neighbours h n g y x) = g ! y ! x"
  shows "grid_sweep h n g = g"
  unfolding grid_sweep_def
  by (rule fold_fixed) (auto simp: grid_update_at_def assms)

lemma live_neighbour_block:
  assumes g: "\<forall>j < h. \<forall>i < n. g ! j ! i = in_block y0 x0 j i"
    and y0: "Suc y0 < h" and x0: "Suc x0 < n"
  shows "live_neighbour h n g y x (dy, dx) \<longleftrightarrow>
     \<not> (dx = 0 \<and> dy = 0)
     \<and> (int y + dy = int y0 \<or> int y + dy = int y0 + 1)
     \<and> (int x + dx = int x0 \<or> int x + dx = int x0 + 1)"
proof (cases "in_grid h n (int y + dy) (int x + dx)")
  case True
  then have j: "nat (int y + dy) < h" and i: "nat (int x + dx) < n"
    and nn: "0 \<le> int y + dy" "0 \<le> int x + dx"
    by (simp_all add: in_grid_def nat_less_iff)
  have "g ! nat (int y + dy) ! nat (int x + dx) = in_block y0 x0 (nat (int y + dy)) (nat (int x + dx))"
    using g j i by simp
  also have "\<dots> \<longleftrightarrow> (int y + dy = int y0 \<or> int y + dy = int y0 + 1)
     \<and> (int x + dx = int x0 \<or> int x + dx = int x0 + 1)"
    using nn unfolding in_block_def by auto
  finally show ?thesis using True by (simp add: live_neighbour_def)
next
  case False
  then have "\<not> ((int y + dy = int y0 \<or> int y + dy = int y0 + 1)
     \<and> (int x + dx = int x0 \<or> int x + dx = int x0 + 1))"
    using y0 x0 unfolding in_grid_def by auto
  then show ?thesis using False by (simp add: live_neighbour_def)
qed

lemma block_grid_fixed:
  assumes g: "\<forall>j < h. \<forall>i < n. g ! j ! i = in_block y0 x0 j i"
    and y0: "Suc y0 < h" and x0: "Suc x0 < n"
  shows "grid_sweep h n g = g"
proof (rule grid_sweep_fixed, intro allI impI)
  fix y x assume yx: "y < h" "x < n"
  have cnt: "live_neighbours h n g y x =
      sum_list (map (\<lambda>d. of_bool (live_neighbour h n g y x d)) neighbour_offsets)"
    by (simp only: live_neighbours_def length_filter_sum)
  have b: "g ! y ! x = in_block y0 x0 y x" using g yx by simp
  have ca: "Suc y < y0 \<or> Suc y = y0 \<or> y = y0 \<or> y = Suc y0 \<or> y = Suc (Suc y0) \<or> Suc (Suc y0) < y"
    by arith
  have cb: "Suc x < x0 \<or> Suc x = x0 \<or> x = x0 \<or> x = Suc x0 \<or> x = Suc (Suc x0) \<or> Suc (Suc x0) < x"
    by arith
  show "life_rule (g ! y ! x) (live_neighbours h n g y x) = g ! y ! x"
    unfolding cnt b neighbour_offsets_eq
    using ca cb
    by (elim disjE; simp add: live_neighbour_block [OF g y0 x0] life_rule_def in_block_def)
qed

lemma is_block_iff_grid:
  assumes sh: "cells_shape w"
  shows "is_block w y0 x0 \<longleftrightarrow>
     Suc y0 < unat (height w) \<and> Suc x0 < unat (width w) \<and>
     (\<forall>j < unat (height w). \<forall>i < unat (width w). alive_grid w ! j ! i = in_block y0 x0 j i)"
proof -
  have "list_all (\<lambda>(y, x). (alive (cells w ! y ! x) \<noteq> 0) = in_block y0 x0 y x) (positions w) \<longleftrightarrow>
      (\<forall>j < unat (height w). \<forall>i < unat (width w). alive_grid w ! j ! i = in_block y0 x0 j i)"
    unfolding list_all_iff by (fastforce simp: alive_grid_nth [OF sh])
  then show ?thesis by (simp add: is_block_def)
qed

lemma is_block_of_grid:
  assumes wf: "world_wf w" and h: "unat (height w) = h" and n: "unat (width w) = n"
    and g: "alive_grid w = map (\<lambda>j. map (\<lambda>i. in_block y0 x0 j i) [0..<n]) [0..<h]"
    and y0: "Suc y0 < h" and x0: "Suc x0 < n"
  shows "is_block w y0 x0"
proof -
  have sh: "cells_shape w" using wf by (simp add: world_wf_def)
  show ?thesis
    unfolding is_block_iff_grid [OF sh] h n g using y0 x0 by simp
qed

text \<open>
  Claim C7. On a world whose live cells are exactly a 2 by 2 block, \<open>world_advance\<close>
  leaves every alive flag as it was, and a second call returns 0 and leaves the counter
  as it was. (The first call does so already: no cell changes, so reading the world being
  written makes no difference here.)
\<close>

theorem world_advance_block:
  assumes wf: "world_wf w" and blk: "is_block w y0 x0"
  shows "\<exists>w1 r1 w2 r2. world_advance w = Some (w1, r1) \<and> world_advance w1 = Some (w2, r2)
     \<and> (\<forall>y < unat (height w). \<forall>x < unat (width w).
           alive (cells w1 ! y ! x) = alive (cells w ! y ! x))
     \<and> is_block w1 y0 x0
     \<and> r2 = 0 \<and> iteration w2 = iteration w1
     \<and> r1 = 0 \<and> iteration w1 = iteration w"
proof -
  let ?h = "unat (height w)" and ?n = "unat (width w)" and ?g = "alive_grid w"
  have sh: "cells_shape w" using wf by (simp add: world_wf_def)
  have b: "Suc y0 < ?h" "Suc x0 < ?n" "\<forall>j < ?h. \<forall>i < ?n. ?g ! j ! i = in_block y0 x0 j i"
    using blk unfolding is_block_iff_grid [OF sh] by simp_all
  have fx: "grid_sweep ?h ?n ?g = ?g" using b(3,1,2) by (rule block_grid_fixed)
  obtain w1 where w1: "world_advance w = Some (w1, 0)" "world_wf w1" "height w1 = height w"
    "width w1 = width w" "alive_grid w1 = ?g" "iteration w1 = iteration w"
    using world_advance_grid [OF wf refl refl refl fx] by auto
  have fx1: "grid_sweep (unat (height w1)) (unat (width w1)) (alive_grid w1) = alive_grid w1"
    using fx w1(3,4,5) by simp
  obtain w2 where w2: "world_advance w1 = Some (w2, 0)" "iteration w2 = iteration w1"
    using world_advance_grid [OF w1(2) refl refl refl fx1] by auto
  have same: "\<forall>y < ?h. \<forall>x < ?n. alive (cells w1 ! y ! x) = alive (cells w ! y ! x)"
    using alive_grid_eq_iff [OF w1(2) wf w1(4,3)] w1(5) by simp
  have sh1: "cells_shape w1" using w1(2) by (simp add: world_wf_def)
  have blk1: "is_block w1 y0 x0"
    unfolding is_block_iff_grid [OF sh1] using b w1(3,4,5) by simp
  show ?thesis using w1(1,6) w2 same blk1 by blast
qed

theorem world_advance_block_witness:
  "world_wf block4 \<and> is_block block4 1 1
   \<and> (\<exists>w1 w2. world_advance block4 = Some (w1, 0) \<and> world_advance w1 = Some (w2, 0)
         \<and> is_block w1 1 1 \<and> iteration w2 = iteration w1 \<and> iteration w1 = iteration block4)"
proof -
  have wf: "world_wf block4" using block4_wf by simp
  have "map (\<lambda>j. map (\<lambda>i. in_block 1 1 j i) [0..<4]) [0..<4] =
      [[False,False,False,False],[False,True,True,False],[False,True,True,False],
       [False,False,False,False]]"
    by code_simp
  then have blk: "is_block block4 1 1"
    using is_block_of_grid [OF wf, of 4 4 1 1] block4_wf by simp
  show ?thesis
    using world_advance_block [OF wf blk] wf blk by blast
qed

section \<open>The neighbours of a cell and the rule (C3)\<close>

lemma set_neighbour_offsets:
  "set neighbour_offsets = {(dy, dx). (dy = - 1 \<or> dy = 0 \<or> dy = 1) \<and> (dx = - 1 \<or> dx = 0 \<or> dx = 1)}"
  by (auto simp: neighbour_offsets_def)

lemma distinct_neighbour_offsets: "distinct neighbour_offsets"
  by (simp add: neighbour_offsets_eq)

lemma live_neighbours_card:
  "live_neighbours h n g y x = card {(j, i). (j, i) \<in> neighbour_cells h n y x \<and> g ! j ! i}"
proof -
  let ?P = "live_neighbour h n g y x"
  let ?D = "{d \<in> set neighbour_offsets. ?P d}"
  let ?f = "\<lambda>(dy, dx). (nat (int y + dy), nat (int x + dx))"
  have "live_neighbours h n g y x = card (set (filter ?P neighbour_offsets))"
    unfolding live_neighbours_def
    by (rule distinct_card [symmetric]) (simp add: distinct_neighbour_offsets)
  also have "\<dots> = card ?D" by simp
  also have "\<dots> = card (?f ` ?D)"
  proof (rule card_image [symmetric])
    show "inj_on ?f ?D"
      by (rule inj_onI) (auto simp: live_neighbour_def in_grid_def)
  qed
  also have "?f ` ?D = {(j, i). (j, i) \<in> neighbour_cells h n y x \<and> g ! j ! i}"
  proof (rule set_eqI, rule iffI)
    fix p assume "p \<in> ?f ` ?D"
    then obtain dy dx where d: "(dy, dx) \<in> set neighbour_offsets" "?P (dy, dx)"
      "p = (nat (int y + dy), nat (int x + dx))" by auto
    then show "p \<in> {(j, i). (j, i) \<in> neighbour_cells h n y x \<and> g ! j ! i}"
      unfolding set_neighbour_offsets live_neighbour_def in_grid_def neighbour_cells_def
      by auto
  next
    fix p assume p: "p \<in> {(j, i). (j, i) \<in> neighbour_cells h n y x \<and> g ! j ! i}"
    obtain j i where ji: "p = (j, i)" by (cases p)
    let ?d = "(int j - int y, int i - int x)"
    have "?d \<in> set neighbour_offsets"
      using p unfolding ji set_neighbour_offsets neighbour_cells_def by auto
    moreover have "?P ?d"
      using p unfolding ji live_neighbour_def in_grid_def neighbour_cells_def by auto
    moreover have "?f ?d = p" by (simp add: ji)
    ultimately show "p \<in> ?f ` ?D" by (metis (mono_tags, lifting) image_eqI mem_Collect_eq)
  qed
  finally show ?thesis .
qed

lemma finite_neighbour_cells: "finite (neighbour_cells h n y x)"
proof (rule finite_subset)
  show "neighbour_cells h n y x \<subseteq> {..<h} \<times> {..<n}"
    by (auto simp: neighbour_cells_def)
qed simp

lemma card_neighbour_cells: "card (neighbour_cells h n y x) \<le> 8"
proof -
  let ?g = "replicate h (replicate n True)"
  have "{(j, i). (j, i) \<in> neighbour_cells h n y x \<and> ?g ! j ! i} = neighbour_cells h n y x"
    by (auto simp: neighbour_cells_def)
  then have "card (neighbour_cells h n y x) = live_neighbours h n ?g y x"
    by (simp add: live_neighbours_card)
  then show ?thesis by (simp add: live_neighbours_le)
qed

lemma live_cells_card:
  assumes sh: "cells_shape w"
  shows "card {(j, i). (j, i) \<in> neighbour_cells (unat (height w)) (unat (width w)) y x
                 \<and> alive (cells w ! j ! i) \<noteq> 0}
    = live_neighbours (unat (height w)) (unat (width w)) (alive_grid w) y x"
proof -
  have "{(j, i). (j, i) \<in> neighbour_cells (unat (height w)) (unat (width w)) y x
                 \<and> alive (cells w ! j ! i) \<noteq> 0}
      = {(j, i). (j, i) \<in> neighbour_cells (unat (height w)) (unat (width w)) y x
                 \<and> alive_grid w ! j ! i}"
    using alive_grid_nth [OF sh] by (auto simp: neighbour_cells_def)
  then show ?thesis by (simp only: live_neighbours_card)
qed

text \<open>
  Claim C3. For a cell at row \<open>y\<close>, column \<open>x\<close> of a well-formed world, \<open>cell_update\<close>
  counts the live cells among the positions of the grid that differ from \<open>(y, x)\<close> by at
  most one in each coordinate, \<open>(y, x)\<close> itself left out: at most 8 positions, all inside
  the grid. A cell that is alive stays alive exactly when the count is greater than 1 and
  less than 4, a dead cell becomes alive exactly when the count is 3.
\<close>

theorem cell_update_rule:
  assumes wf: "world_wf w" and y: "y < unat (height w)" and x: "x < unat (width w)"
  shows "\<exists>c N k. c = cells w ! y ! x
      \<and> N = neighbour_cells (unat (height w)) (unat (width w)) y x
      \<and> k = card {(j, i). (j, i) \<in> N \<and> alive (cells w ! j ! i) \<noteq> 0}
      \<and> card N \<le> 8 \<and> k \<le> card N \<and> (y, x) \<notin> N
      \<and> N \<subseteq> {(j, i). j < unat (height w) \<and> i < unat (width w)
                   \<and> \<bar>int j - int y\<bar> \<le> 1 \<and> \<bar>int i - int x\<bar> \<le> 1}
      \<and> count_alive_neighbours w c = of_nat k
      \<and> (alive c \<noteq> 0 \<longrightarrow> (alive (cell_update w c) \<noteq> 0 \<longleftrightarrow> 1 < k \<and> k < 4))
      \<and> (alive c = 0 \<longrightarrow> (alive (cell_update w c) \<noteq> 0 \<longleftrightarrow> k = 3))
      \<and> (alive (cell_update w c) = 0 \<or> alive (cell_update w c) = 1)"
proof -
  let ?c = "cells w ! y ! x"
  let ?N = "neighbour_cells (unat (height w)) (unat (width w)) y x"
  let ?k = "card {(j, i). (j, i) \<in> ?N \<and> alive (cells w ! j ! i) \<noteq> 0}"
  have sh: "cells_shape w" using wf by (simp add: world_wf_def)
  have k: "?k = live_neighbours (unat (height w)) (unat (width w)) (alive_grid w) y x"
    by (rule live_cells_card [OF sh])
  have "card ?N \<le> 8" by (rule card_neighbour_cells)
  moreover have "?k \<le> card ?N"
    by (rule card_mono [OF finite_neighbour_cells]) auto
  moreover have "(y, x) \<notin> ?N" by (simp add: neighbour_cells_def)
  moreover have "?N \<subseteq> {(j, i). j < unat (height w) \<and> i < unat (width w)
                   \<and> \<bar>int j - int y\<bar> \<le> 1 \<and> \<bar>int i - int x\<bar> \<le> 1}"
    by (auto simp: neighbour_cells_def)
  moreover have "count_alive_neighbours w ?c = of_nat ?k"
    by (simp only: k count_alive_neighbours_wf [OF wf y x])
  moreover have upd: "alive (cell_update w ?c) = of_bool (life_rule (alive ?c \<noteq> 0) ?k)"
    by (simp only: k cell_update_wf [OF wf y x]) simp
  then have "(alive ?c \<noteq> 0 \<longrightarrow> (alive (cell_update w ?c) \<noteq> 0 \<longleftrightarrow> 1 < ?k \<and> ?k < 4))
      \<and> (alive ?c = 0 \<longrightarrow> (alive (cell_update w ?c) \<noteq> 0 \<longleftrightarrow> ?k = 3))"
    by (simp add: life_rule_def)
  moreover have "alive (cell_update w ?c) = 0 \<or> alive (cell_update w ?c) = 1"
    by (rule cell_update_alive_01)
  ultimately show ?thesis by blast
qed

theorem cell_update_rule_witness:
  "world_wf blinker5 \<and> 1 < unat (height blinker5) \<and> 2 < unat (width blinker5)
   \<and> alive (cells blinker5 ! 1 ! 2) = 0
   \<and> card {(j, i). (j, i) \<in> neighbour_cells (unat (height blinker5)) (unat (width blinker5)) 1 2
                \<and> alive (cells blinker5 ! j ! i) \<noteq> 0} = 3
   \<and> alive (cell_update blinker5 (cells blinker5 ! 1 ! 2)) = 1"
proof -
  have wf: "world_wf blinker5" and y: "1 < unat (height blinker5)" and x: "2 < unat (width blinker5)"
    using blinker5_wf by simp_all
  have sh: "cells_shape blinker5" using wf by (simp add: world_wf_def)
  have "card {(j, i). (j, i) \<in> neighbour_cells (unat (height blinker5)) (unat (width blinker5)) 1 2
                \<and> alive (cells blinker5 ! j ! i) \<noteq> 0}
      = live_neighbours (unat (height blinker5)) (unat (width blinker5)) (alive_grid blinker5) 1 2"
    by (rule live_cells_card [OF sh])
  also have "\<dots> = live_neighbours 5 5 [[False,False,False,False,False],[False,False,False,False,False],
        [False,True,True,True,False],[False,False,False,False,False],[False,False,False,False,False]] 1 2"
    using blinker5_wf by simp
  also have "\<dots> = 3" by code_simp
  finally have k: "card {(j, i). (j, i) \<in> neighbour_cells (unat (height blinker5)) (unat (width blinker5)) 1 2
                \<and> alive (cells blinker5 ! j ! i) \<noteq> 0} = 3" .
  have "\<not> alive_grid blinker5 ! 1 ! 2" using blinker5_wf by simp
  then have a: "alive (cells blinker5 ! 1 ! 2) = 0"
    using alive_grid_nth [OF sh y x] by simp
  have "alive (cell_update blinker5 (cells blinker5 ! 1 ! 2)) = 1"
    using cell_update_rule [OF wf y x] a k by auto
  then show ?thesis using wf y x a k by blast
qed

section \<open>Stored coordinates (C10)\<close>

lemma world_init_coords:
  assumes "world_init width0 height0 = Some w"
  shows "coords_inv w"
proof (cases "0 \<le> sint width0")
  case True
  have h: "0 \<le> sint height0"
    using assms by (auto simp: world_init_def word_sless_alt split: if_splits)
  obtain v where "world_init width0 height0 = Some v" "world_wf v"
    using world_init_nonneg [OF True h] by blast
  then show ?thesis using assms by (simp add: world_wf_def)
next
  case False
  then have "sint height0 = 0"
    using assms by (auto simp: world_init_def word_sless_alt split: if_splits)
  then have "height0 = 0" by (simp add: signed_eq_0_iff)
  then have "height w = 0"
    using assms by (auto simp: world_init_def split: if_splits)
  then show ?thesis by (simp add: coords_inv_def positions_def)
qed

lemma world_copy_coords:
  assumes "world_copy w = Some c"
  shows "coords_inv c"
proof -
  obtain c0 where c0: "world_init (ucast (width w)) (ucast (height w)) = Some c0"
    and c: "c = fold (\<lambda>(y, x) c. set_alive c y x (alive (cells w ! y ! x))) (positions w) c0"
    using assms by (auto simp: world_copy_def split: option.splits)
  have "coords_inv c0" using c0 by (rule world_init_coords)
  then show ?thesis
    unfolding c by (rule fold_invariant [rotated]) (auto simp: coords_inv_set_alive)
qed

lemma world_randomize_coords:
  assumes "coords_inv w"
  shows "coords_inv (world_randomize rand w)"
  unfolding world_randomize_def
  using assms by (rule fold_invariant [rotated]) (auto simp: coords_inv_set_alive)

lemma world_advance_coords:
  assumes "coords_inv w" "world_advance w = Some (w', r)"
  shows "coords_inv w'"
proof -
  have "\<exists>i. w' = (sweep w)\<lparr>iteration := i\<rparr>"
    using assms(2) by (auto simp: world_advance_def Let_def split: option.splits)
  then obtain i where "w' = (sweep w)\<lparr>iteration := i\<rparr>" ..
  then show ?thesis
    using coords_inv_sweep [OF assms(1)] by (simp add: coords_inv_def positions_def)
qed

lemma count_alive_neighbours_coords:
  assumes "cell_x c = cell_x c'" "cell_y c = cell_y c'"
  shows "count_alive_neighbours w c = count_alive_neighbours w c'"
proof -
  have "count_neighbour w c = count_neighbour w c'"
    by (intro ext) (simp add: count_neighbour_def assms)
  then show ?thesis by (simp only: count_alive_neighbours_def)
qed

text \<open>
  Claim C10. A cell record carries its own coordinates (\<open>cell_x\<close>, \<open>cell_y\<close>). That the
  cell at row \<open>y\<close>, column \<open>x\<close> of the array has \<open>cell_x = x\<close> and \<open>cell_y = y\<close> holds
  for every world \<open>world_init\<close> returns and for every copy, and it is kept by
  \<open>world_randomize\<close> and \<open>world_advance\<close>. \<open>cell_update\<close> reads the position of a cell
  from these two fields only; under the invariant the count for the cell at \<open>(y, x)\<close> is
  the number of live cells around \<open>(y, x)\<close>.
\<close>

theorem coords_invariant:
  "(\<forall>v. world_init width0 height0 = Some v \<longrightarrow> coords_inv v)
   \<and> (0 \<le> sint width0 \<and> 0 \<le> sint height0 \<longrightarrow> (\<exists>v. world_init width0 height0 = Some v))
   \<and> (\<forall>c. world_copy w = Some c \<longrightarrow> coords_inv c)
   \<and> (coords_inv w \<longrightarrow> coords_inv (world_randomize rand w))
   \<and> (coords_inv w \<longrightarrow> (\<forall>w' r. world_advance w = Some (w', r) \<longrightarrow> coords_inv w'))
   \<and> (world_wf w \<longrightarrow> (\<exists>c. world_copy w = Some c) \<and> (\<exists>w' r. world_advance w = Some (w', r)))
   \<and> (\<forall>c c'. cell_x c = cell_x c' \<and> cell_y c = cell_y c' \<longrightarrow>
          count_alive_neighbours w c = count_alive_neighbours w c')
   \<and> (world_wf w \<and> y < unat (height w) \<and> x < unat (width w) \<longrightarrow>
          cell_x (cells w ! y ! x) = of_nat x \<and> cell_y (cells w ! y ! x) = of_nat y
          \<and> count_alive_neighbours w (cells w ! y ! x) =
              of_nat (card {(j, i). (j, i) \<in> neighbour_cells (unat (height w)) (unat (width w)) y x
                                    \<and> alive (cells w ! j ! i) \<noteq> 0}))"
proof -
  have "\<exists>v. world_init width0 height0 = Some v" if "0 \<le> sint width0 \<and> 0 \<le> sint height0"
    using that world_init_nonneg [of width0 height0] by blast
  moreover have "(\<exists>c. world_copy w = Some c) \<and> (\<exists>w' r. world_advance w = Some (w', r))"
    if "world_wf w"
    using world_copy_wf [OF that] world_advance_wf [OF that] by blast
  moreover have "cell_x (cells w ! y ! x) = of_nat x \<and> cell_y (cells w ! y ! x) = of_nat y
          \<and> count_alive_neighbours w (cells w ! y ! x) =
              of_nat (card {(j, i). (j, i) \<in> neighbour_cells (unat (height w)) (unat (width w)) y x
                                    \<and> alive (cells w ! j ! i) \<noteq> 0})"
    if a: "world_wf w \<and> y < unat (height w) \<and> x < unat (width w)"
  proof -
    have sh: "cells_shape w" and co: "coords_inv w" using a by (simp_all add: world_wf_def)
    show ?thesis
      using coords_invD [OF co, of y x] a
      by (simp add: live_cells_card [OF sh] count_alive_neighbours_wf)
  qed
  ultimately show ?thesis
    using world_init_coords world_copy_coords world_randomize_coords world_advance_coords
      count_alive_neighbours_coords
    by blast
qed

theorem coords_invariant_witness:
  "world_wf blinker5 \<and> coords_inv blinker5
   \<and> (\<exists>v. world_init 3 2 = Some v \<and> coords_inv v)
   \<and> (\<exists>c. world_copy blinker5 = Some c \<and> coords_inv c)
   \<and> coords_inv (world_randomize (\<lambda>k. k) blinker5)
   \<and> (\<exists>w' r. world_advance blinker5 = Some (w', r) \<and> coords_inv w')
   \<and> cell_x (cells blinker5 ! 2 ! 1) = 1 \<and> cell_y (cells blinker5 ! 2 ! 1) = 2"
proof -
  have wf: "world_wf blinker5" and co: "coords_inv blinker5"
    and d: "2 < unat (height blinker5)" "1 < unat (width blinker5)"
    using blinker5_wf by (simp_all add: world_wf_def)
  have s: "0 \<le> sint (3 :: c_int) \<and> 0 \<le> sint (2 :: c_int)" by simp
  show ?thesis
    using coords_invariant [of 3 2 blinker5 "\<lambda>k. k" 2 1] wf co d s
    by (simp only: of_nat_numeral of_nat_1 simp_thms) blast
qed

section \<open>Drawing (C6)\<close>

lemma fold_snoc_map: "fold (\<lambda>x o2. o2 @ [f x]) xs out = out @ map f xs"
  by (induction xs arbitrary: out) simp_all

lemma fold_append_concat: "fold (\<lambda>y o1. o1 @ r y) ys out = out @ concat (map r ys)"
  by (induction ys arbitrary: out) simp_all

lemma draw_rows:
  "fold (\<lambda>y o1. fold (\<lambda>x o2. o2 @ [f y x]) [0..<n] o1 @ [c]) [0..<h] out =
     out @ concat (map (\<lambda>y. map (f y) [0..<n] @ [c]) [0..<h])"
proof -
  have "(\<lambda>y o1. fold (\<lambda>x o2. o2 @ [f y x]) [0..<n] o1 @ [c]) =
      (\<lambda>y o1. o1 @ (map (f y) [0..<n] @ [c]))"
    by (intro ext) (simp add: fold_snoc_map)
  then show ?thesis by (simp only: fold_append_concat)
qed

lemma cells_rows:
  assumes "cells_shape w"
  shows "map (\<lambda>y. map (\<lambda>x. f (cells w ! y ! x)) [0..<unat (width w)] @ [c]) [0..<unat (height w)] =
     map (\<lambda>row. map f row @ [c]) (cells w)"
proof -
  have len: "length (cells w) = unat (height w)"
    "\<And>y. y < unat (height w) \<Longrightarrow> length (cells w ! y) = unat (width w)"
    using cells_shapeD [OF assms] by simp_all
  have row: "map (\<lambda>x. f (cells w ! y ! x)) [0..<unat (width w)] = map f (cells w ! y)"
    if "y < unat (height w)" for y
    by (rule nth_equalityI) (simp_all add: len that)
  show ?thesis
    by (rule nth_equalityI) (simp_all add: len row)
qed

lemma sint_size_t_dims:
  assumes "dims_int w"
  shows "sint (width w) = int (unat (width w))" "sint (height w) = int (unat (height w))"
  using assms sint_size_t_small [of "width w"] sint_size_t_small [of "height w"]
  by (simp_all only: dims_int_def uint_nat)

lemma world_draw_wf:
  assumes wf: "world_wf w"
  shows "world_draw w out =
     (w, out @ RESET_CURSOR @ concat (map (\<lambda>row. map cell_char row @ [CHR 0x0A]) (cells w))
         @ [CHR 0x0B] @ ''width: '' @ dec_nat (unat (width w))
         @ '', height: '' @ dec_nat (unat (height w))
         @ '', iteration: '' @ dec_int (sint (iteration w)) @ [CHR 0x0A])"
proof -
  have sh: "cells_shape w" and d: "dims_int w" using wf by (simp_all add: world_wf_def)
  have dec: "dec_int (sint (width w)) = dec_nat (unat (width w))"
    "dec_int (sint (height w)) = dec_nat (unat (height w))"
    by (simp_all add: sint_size_t_dims [OF d] dec_int_def)
  show ?thesis
    unfolding world_draw_def Let_def draw_rows cells_rows [OF sh] dec by simp
qed

lemma digit_value_nth:
  assumes "k < 10"
  shows "digit_value (''0123456789'' ! k) = k"
proof -
  have "k = 0 \<or> k = 1 \<or> k = 2 \<or> k = 3 \<or> k = 4 \<or> k = 5 \<or> k = 6 \<or> k = 7 \<or> k = 8 \<or> k = 9"
    using assms by arith
  then show ?thesis by (elim disjE) (simp_all add: digit_value_def)
qed

lemma dec_value_snoc: "dec_value (s @ [c]) = 10 * dec_value s + digit_value c"
  by (simp add: dec_value_def)

lemma dec_value_dec_nat: "dec_value (dec_nat n) = n"
proof (induction n rule: dec_nat.induct)
  case (1 n)
  show ?case
  proof (cases "n < 10")
    case True
    then show ?thesis
      by (simp add: dec_nat.simps [of n] dec_value_def digit_value_nth)
  next
    case False
    then show ?thesis
      using "1.IH" by (simp add: dec_nat.simps [of n] dec_value_snoc digit_value_nth)
  qed
qed

lemma row3_cells:
  "cells row3 = [[\<lparr>alive = 1, cell_x = 0, cell_y = 0\<rparr>, \<lparr>alive = 1, cell_x = 1, cell_y = 0\<rparr>,
                  \<lparr>alive = 1, cell_x = 2, cell_y = 0\<rparr>]]"
  by (simp add: row3_def world_of_def)

lemma row3_draw:
  "snd (world_draw row3 []) =
     CHR 0x1B # ''[Hooo'' @ [CHR 0x0A, CHR 0x0B] @ ''width: 3, height: 1, iteration: 0'' @ [CHR 0x0A]"
proof -
  have wf: "world_wf row3" and d: "unat (width row3) = 3" "unat (height row3) = 1"
    using row3_wf by simp_all
  have it: "iteration row3 = 0" by (simp add: row3_def world_of_def)
  have dec: "dec_nat 3 = ''3''" "dec_nat (Suc 0) = ''1''" "dec_int 0 = ''0''"
    by (simp_all add: dec_int_def dec_nat.simps [of 3] dec_nat.simps [of "Suc 0"] dec_nat.simps [of 0])
  show ?thesis
    by (simp add: world_draw_wf [OF wf] d it dec row3_cells cell_char_def RESET_CURSOR_def)
qed

text \<open>
  Claim C6 as stated fails: after the rows the code prints a vertical tab (the \<open>\\v\<close>
  that starts the format string), not an empty line. On the one-row world \<open>o o o\<close> the
  output does not continue with a newline after the newline of the row.
\<close>

theorem world_draw_blank_line_counterexample:
  "\<not> (\<exists>rest. snd (world_draw row3 []) = RESET_CURSOR @ ''ooo'' @ [CHR 0x0A] @ [CHR 0x0A] @ rest)"
  by (simp add: row3_draw RESET_CURSOR_def)

text \<open>
  Claim C6, amended. \<open>world_draw\<close> leaves the world as it is and appends to the output:
  the cursor reset, then \<open>height\<close> rows of \<open>width\<close> characters, \<open>o\<close> for a cell whose
  alive flag is not 0 and a space otherwise, each row ended by a newline; then one
  vertical tab character; then \<open>width: W, height: H, iteration: G\<close> in decimal and a
  newline.
\<close>

theorem world_draw_output:
  assumes wf: "world_wf w"
  shows "\<exists>rows. fst (world_draw w out) = w
     \<and> snd (world_draw w out) =
         out @ RESET_CURSOR @ concat (map (\<lambda>r. r @ [CHR 0x0A]) rows)
         @ [CHR 0x0B] @ ''width: '' @ dec_nat (unat (width w))
         @ '', height: '' @ dec_nat (unat (height w))
         @ '', iteration: '' @ dec_int (sint (iteration w)) @ [CHR 0x0A]
     \<and> length rows = unat (height w)
     \<and> (\<forall>y < unat (height w). length (rows ! y) = unat (width w)
           \<and> (\<forall>x < unat (width w).
                 rows ! y ! x = (if alive (cells w ! y ! x) \<noteq> 0 then CHR ''o'' else CHR '' '')))
     \<and> (\<forall>k. dec_value (dec_nat k) = k)"
proof -
  let ?rows = "map (map cell_char) (cells w)"
  have sh: "cells_shape w" using wf by (simp add: world_wf_def)
  have len: "length (cells w) = unat (height w)"
    "\<And>y. y < unat (height w) \<Longrightarrow> length (cells w ! y) = unat (width w)"
    using cells_shapeD [OF sh] by simp_all
  have c: "concat (map (\<lambda>r. r @ [CHR 0x0A]) ?rows) =
      concat (map (\<lambda>row. map cell_char row @ [CHR 0x0A]) (cells w))"
    by (simp add: comp_def)
  have "fst (world_draw w out) = w" by (simp add: world_draw_wf [OF wf])
  moreover have "snd (world_draw w out) =
         out @ RESET_CURSOR @ concat (map (\<lambda>r. r @ [CHR 0x0A]) ?rows)
         @ [CHR 0x0B] @ ''width: '' @ dec_nat (unat (width w))
         @ '', height: '' @ dec_nat (unat (height w))
         @ '', iteration: '' @ dec_int (sint (iteration w)) @ [CHR 0x0A]"
    unfolding c by (simp add: world_draw_wf [OF wf])
  moreover have "length ?rows = unat (height w)" by (simp add: len)
  moreover have "\<forall>y < unat (height w). length (?rows ! y) = unat (width w)
           \<and> (\<forall>x < unat (width w).
                 ?rows ! y ! x = (if alive (cells w ! y ! x) \<noteq> 0 then CHR ''o'' else CHR '' ''))"
    by (simp add: len cell_char_def)
  ultimately show ?thesis using dec_value_dec_nat by blast
qed

theorem world_draw_output_witness:
  "world_wf row3 \<and> fst (world_draw row3 []) = row3
   \<and> (\<exists>rows. length rows = 1 \<and> length (rows ! 0) = 3
         \<and> snd (world_draw row3 []) =
             RESET_CURSOR @ concat (map (\<lambda>r. r @ [CHR 0x0A]) rows)
             @ [CHR 0x0B] @ ''width: 3, height: 1, iteration: 0'' @ [CHR 0x0A])"
proof -
  have wf: "world_wf row3" and d: "unat (width row3) = 3" "unat (height row3) = 1"
    using row3_wf by simp_all
  have it: "iteration row3 = 0" by (simp add: row3_def world_of_def)
  have dec: "dec_nat 3 = ''3''" "dec_nat (Suc 0) = ''1''" "dec_int 0 = ''0''"
    by (simp_all add: dec_int_def dec_nat.simps [of 3] dec_nat.simps [of "Suc 0"] dec_nat.simps [of 0])
  show ?thesis
    using world_draw_output [OF wf, of "[]"] wf by (simp add: d it dec) blast
qed

end
